theory Spec2Isabelle
  imports Main "HOL-Library.AList"
begin

section \<open>Values\<close>

text \<open>
  The cache handles plain JavaScript values: what \<^verbatim>\<open>JSON.parse\<close> produces,
  and \<^verbatim>\<open>undefined\<close>, which \<^verbatim>\<open>denormalize\<close> returns for a dangling reference.
  An object is the list of its own properties in the order of \<^verbatim>\<open>Object.entries\<close>;
  a well-formed object has no key twice. Property names of a GraphQL response are
  GraphQL names, never array indices, so the order of \<^verbatim>\<open>Object.entries\<close> is the
  order of insertion. Numbers are the integers (an \<^verbatim>\<open>ID\<close> or \<^verbatim>\<open>Int\<close> of a response).

  The prototype of every object of the model is \<^verbatim>\<open>Object.prototype\<close>, as it is for an
  object that \<^verbatim>\<open>JSON.parse\<close>, an object literal without \<^verbatim>\<open>__proto__\<close> or a spread
  creates. The members of \<^verbatim>\<open>Object.prototype\<close> are built-in functions: \<^verbatim>\<open>JFunction\<close> is
  one of them, by its name. An assignment \<^verbatim>\<open>obj["__proto__"] = v\<close> changes the prototype
  of \<^verbatim>\<open>obj\<close>; the model has no place for the new prototype, and the statements below
  that follow a payload through such assignments are about payloads in which no object has
  the own key \<^verbatim>\<open>__proto__\<close>.
\<close>

datatype jvalue =
    JUndefined
  | JNull
  | JBool bool
  | JNum int
  | JStr string
  | JArr "jvalue list"
  | JObj "(string \<times> jvalue) list"
  | JFunction string

type_synonym jobj = "(string \<times> jvalue) list"

text \<open>\<^verbatim>\<open>type EntityId = `${string}:${string}`\<close>, a string at run time.\<close>

type_synonym EntityId = string

text \<open>\<^verbatim>\<open>Map<EntityId, StoredEntity>\<close>: the entries in insertion order.\<close>

type_synonym entity_map = "(EntityId \<times> jobj) list"

text \<open>
  The value of an own property, \<^verbatim>\<open>undefined\<close> when there is none. This is \<^verbatim>\<open>obj[key]\<close>
  for a key that names no member of \<^verbatim>\<open>Object.prototype\<close>: \<^verbatim>\<open>__typename\<close>, \<^verbatim>\<open>id\<close>,
  \<^verbatim>\<open>_id\<close> and \<^verbatim>\<open>__ref\<close> are such keys.
\<close>

definition get_prop :: "jobj \<Rightarrow> string \<Rightarrow> jvalue" where
  "get_prop obj key = (case map_of obj key of None \<Rightarrow> JUndefined | Some v \<Rightarrow> v)"

text \<open>Whether the object has an own property of the name.\<close>

definition has_prop :: "jobj \<Rightarrow> string \<Rightarrow> bool" where
  "has_prop obj key = (map_of obj key \<noteq> None)"

text \<open>
  The names of the members of \<^verbatim>\<open>Object.prototype\<close>, which every object inherits.
  \<^verbatim>\<open>key in obj\<close> holds of the own properties and of these names. \<^verbatim>\<open>obj[key]\<close> reads an
  own property first and an inherited member otherwise: \<^verbatim>\<open>constructor\<close> is the function
  \<^verbatim>\<open>Object\<close>, the getter \<^verbatim>\<open>__proto__\<close> gives \<^verbatim>\<open>Object.prototype\<close> itself (an object without
  enumerable properties), every other member is the built-in function of its name.
\<close>

definition object_prototype_names :: "string list" where
  "object_prototype_names =
     [''constructor'', ''__defineGetter__'', ''__defineSetter__'', ''hasOwnProperty'',
      ''__lookupGetter__'', ''__lookupSetter__'', ''isPrototypeOf'', ''propertyIsEnumerable'',
      ''toString'', ''valueOf'', ''__proto__'', ''toLocaleString'']"

definition in_obj :: "string \<Rightarrow> jobj \<Rightarrow> bool" where
  "in_obj key obj = (has_prop obj key \<or> key \<in> set object_prototype_names)"

definition member_read :: "jobj \<Rightarrow> string \<Rightarrow> jvalue" where
  "member_read obj key =
     (case map_of obj key of
        Some v \<Rightarrow> v
      | None \<Rightarrow>
          if key \<in> set object_prototype_names then
            (if key = ''__proto__'' then JObj []
             else if key = ''constructor'' then JFunction ''Object''
             else JFunction key)
          else JUndefined)"

text \<open>
  \<^verbatim>\<open>map.set(key, v)\<close>, and the definition of an own property by a spread: an existing key
  keeps its place, a new key goes last. This is \<^const>\<open>AList.update\<close>.

  The assignment \<^verbatim>\<open>obj[key] = v\<close> does the same for every key but \<^verbatim>\<open>__proto__\<close>. For
  \<^verbatim>\<open>__proto__\<close> it calls the setter of \<^verbatim>\<open>Object.prototype\<close>: no own property is stored
  (and the prototype of \<^verbatim>\<open>obj\<close> changes when \<^verbatim>\<open>v\<close> is an object or \<^verbatim>\<open>null\<close>, which the
  model does not record).

  \<^verbatim>\<open>{ ...a, ...b }\<close>: the properties of \<^verbatim>\<open>a\<close>, then those of \<^verbatim>\<open>b\<close> defined in
  order. A spread defines own properties, also for the key \<^verbatim>\<open>__proto__\<close>.
\<close>

definition assign :: "jobj \<Rightarrow> string \<Rightarrow> jvalue \<Rightarrow> jobj" where
  "assign obj key v = (if key = ''__proto__'' then obj else AList.update key v obj)"

definition spread :: "jobj \<Rightarrow> jobj \<Rightarrow> jobj" where
  "spread a b = fold (\<lambda>(k, v). AList.update k v) b a"

text \<open>Truthiness: \<^verbatim>\<open>!v\<close> holds of \<^verbatim>\<open>undefined\<close>, \<^verbatim>\<open>null\<close>, \<^verbatim>\<open>false\<close>, \<^verbatim>\<open>0\<close> and \<^verbatim>\<open>""\<close>.\<close>

fun truthy :: "jvalue \<Rightarrow> bool" where
  "truthy JUndefined = False"
| "truthy JNull = False"
| "truthy (JBool b) = b"
| "truthy (JNum n) = (n \<noteq> 0)"
| "truthy (JStr s) = (s \<noteq> [])"
| "truthy (JArr _) = True"
| "truthy (JObj _) = True"
| "truthy (JFunction _) = True"

text \<open>Decimal numerals, for \<^verbatim>\<open>String(n)\<close> on an integer.\<close>

fun digits :: "nat \<Rightarrow> string" where
  "digits n = (if n < 10 then [''0123456789'' ! n]
               else digits (n div 10) @ [''0123456789'' ! (n mod 10)])"

declare digits.simps [simp del]

definition string_of_int :: "int \<Rightarrow> string" where
  "string_of_int i = (if i < 0 then CHR ''-'' # digits (nat (- i)) else digits (nat i))"

text \<open>\<^verbatim>\<open>xs.join(sep)\<close> on an array of strings.\<close>

fun join :: "string \<Rightarrow> string list \<Rightarrow> string" where
  "join sep [] = []"
| "join sep [x] = x"
| "join sep (x # y # ys) = x @ sep @ join sep (y # ys)"

text \<open>
  \<^verbatim>\<open>String(v)\<close>, which a template literal applies: an array joins its elements with a
  comma, \<^verbatim>\<open>null\<close> and \<^verbatim>\<open>undefined\<close> elements as empty strings; an object is
  \<^verbatim>\<open>[object Object]\<close>; a built-in function is rendered as V8 renders it.
\<close>

fun js_string :: "jvalue \<Rightarrow> string" where
  "js_string JUndefined = ''undefined''"
| "js_string JNull = ''null''"
| "js_string (JBool b) = (if b then ''true'' else ''false'')"
| "js_string (JNum n) = string_of_int n"
| "js_string (JStr s) = s"
| "js_string (JArr vs) =
     join '','' (map (\<lambda>v. if v = JNull \<or> v = JUndefined then [] else js_string v) vs)"
| "js_string (JObj _) = ''[object Object]''"
| "js_string (JFunction name) = ''function '' @ name @ ''() { [native code] }''"

section \<open>Type policies and the identity of an object\<close>

text \<open>
  \<^verbatim>\<open>keyFields?: string[] | KeyFieldsFunction\<close>, where a \<^verbatim>\<open>KeyFieldsFunction\<close> maps the
  object to \<^verbatim>\<open>string | null\<close>. The other members of a \<^verbatim>\<open>TypePolicy\<close> (\<^verbatim>\<open>fields\<close>,
  \<^verbatim>\<open>merge\<close>) are read nowhere in the cache. A key function is a function of the model:
  one that throws is not represented.
\<close>

datatype KeyFields =
    KeyFieldList "string list"
  | KeyFieldsFunction "jobj \<Rightarrow> string option"

record TypePolicy =
  keyFields :: "KeyFields option"

type_synonym TypePolicies = "string \<Rightarrow> TypePolicy option"

text \<open>
  One part of a composite key: \<^verbatim>\<open>keyFields.map((field) => ...)\<close>. The field name is
  any string, so \<^verbatim>\<open>object[field]\<close> may read an inherited member.
\<close>

fun keyPart :: "jobj \<Rightarrow> string \<Rightarrow> string" where
  "keyPart object field =
     (case member_read object field of
        JUndefined \<Rightarrow> []
      | JNull \<Rightarrow> []
      | JStr s \<Rightarrow> js_string (JStr s)
      | JNum n \<Rightarrow> js_string (JNum n)
      | JBool b \<Rightarrow> js_string (JBool b)
      | _ \<Rightarrow> [])"

text \<open>\<^verbatim>\<open>object.id ?? object._id\<close>.\<close>

definition default_id :: "jobj \<Rightarrow> jvalue" where
  "default_id object =
     (let i = get_prop object ''id''
      in if i = JNull \<or> i = JUndefined then get_prop object ''_id'' else i)"

text \<open>\<^verbatim>\<open>typePolicies?.[typename]?.keyFields\<close>; the property key is the string of \<^verbatim>\<open>typename\<close>.\<close>

definition policy_keyFields :: "TypePolicies \<Rightarrow> jvalue \<Rightarrow> KeyFields option" where
  "policy_keyFields typePolicies typename =
     (case typePolicies (js_string typename) of
        None \<Rightarrow> None
      | Some policy \<Rightarrow> keyFields policy)"

text \<open>\<^verbatim>\<open>getEntityId(object, typePolicies)\<close>; \<^verbatim>\<open>null\<close> is \<^const>\<open>None\<close>.\<close>

definition getEntityId :: "jobj \<Rightarrow> TypePolicies \<Rightarrow> EntityId option" where
  "getEntityId object typePolicies =
     (let typename = get_prop object ''__typename'' in
      if \<not> truthy typename then None
      else
        (case policy_keyFields typePolicies typename of
           Some (KeyFieldsFunction f) \<Rightarrow>
             (case f object of
                None \<Rightarrow> None
              | Some customKey \<Rightarrow>
                  if customKey \<noteq> [] then Some (js_string typename @ '':'' @ customKey)
                  else None)
         | Some (KeyFieldList names) \<Rightarrow>
             Some (js_string typename @ '':'' @ join '':'' (map (keyPart object) names))
         | None \<Rightarrow>
             (let i = default_id object in
              case i of
                JStr s \<Rightarrow> Some (js_string typename @ '':'' @ js_string i)
              | JNum n \<Rightarrow> Some (js_string typename @ '':'' @ js_string i)
              | _ \<Rightarrow> None)))"

text \<open>
  \<^verbatim>\<open>toEntityRef\<close> and \<^verbatim>\<open>isEntityRef\<close>. On an object \<^verbatim>\<open>isEntityRef\<close> is the test
  \<^verbatim>\<open>"__ref" in value\<close>; \<^verbatim>\<open>__ref\<close> names no member of \<^verbatim>\<open>Object.prototype\<close>, so this is the
  test for an own property, which the functions below make on the object at hand.
\<close>

definition toEntityRef :: "EntityId \<Rightarrow> jvalue" where
  "toEntityRef entityId = JObj [(''__ref'', JStr entityId)]"

fun isEntityRef :: "jvalue \<Rightarrow> bool" where
  "isEntityRef (JObj obj) = in_obj ''__ref'' obj"
| "isEntityRef _ = False"

section \<open>Normalization\<close>

text \<open>
  \<^verbatim>\<open>normalize\<close> walks the value with the local function \<^verbatim>\<open>normalizeValue\<close>, which
  writes into the \<^verbatim>\<open>entities\<close> map of the enclosing call: the map is passed through.
  \<^verbatim>\<open>normalizeArray\<close> is \<^verbatim>\<open>value.map(normalizeValue)\<close>; \<^verbatim>\<open>normalizeEntries\<close> is the
  loop over \<^verbatim>\<open>Object.entries(obj)\<close> that fills \<^verbatim>\<open>normalizedObj\<close>. The identity of an
  object is taken from the object as it came, before its fields are normalized.
\<close>

function normalizeValue :: "TypePolicies \<Rightarrow> jvalue \<Rightarrow> entity_map \<Rightarrow> jvalue \<times> entity_map"
  and normalizeArray :: "TypePolicies \<Rightarrow> jvalue list \<Rightarrow> entity_map \<Rightarrow> jvalue list \<times> entity_map"
  and normalizeEntries ::
    "TypePolicies \<Rightarrow> jobj \<Rightarrow> jobj \<Rightarrow> entity_map \<Rightarrow> jobj \<times> entity_map"
where
  "normalizeValue tp JNull entities = (JNull, entities)"
| "normalizeValue tp JUndefined entities = (JUndefined, entities)"
| "normalizeValue tp (JArr vs) entities =
     (case normalizeArray tp vs entities of (rs, entities') \<Rightarrow> (JArr rs, entities'))"
| "normalizeValue tp (JObj obj) entities =
     (let entityId = getEntityId obj tp in
      case normalizeEntries tp obj [] entities of
        (normalizedObj, entities') \<Rightarrow>
          (case entityId of
             None \<Rightarrow> (JObj normalizedObj, entities')
           | Some eid \<Rightarrow>
               if eid = [] then (JObj normalizedObj, entities')
               else
                 (case map_of entities' eid of
                    Some existing \<Rightarrow>
                      (toEntityRef eid, AList.update eid (spread existing normalizedObj) entities')
                  | None \<Rightarrow> (toEntityRef eid, AList.update eid normalizedObj entities'))))"
| "normalizeValue tp (JBool b) entities = (JBool b, entities)"
| "normalizeValue tp (JNum n) entities = (JNum n, entities)"
| "normalizeValue tp (JStr s) entities = (JStr s, entities)"
| "normalizeArray tp [] entities = ([], entities)"
| "normalizeArray tp (v # vs) entities =
     (case normalizeValue tp v entities of
        (r, entities') \<Rightarrow>
          (case normalizeArray tp vs entities' of (rs, entities'') \<Rightarrow> (r # rs, entities'')))"
| "normalizeEntries tp [] normalizedObj entities = (normalizedObj, entities)"
| "normalizeEntries tp ((key, val) # rest) normalizedObj entities =
     (case normalizeValue tp val entities of
        (r, entities') \<Rightarrow> normalizeEntries tp rest (assign normalizedObj key r) entities')"
| "normalizeValue tp (JFunction f) entities = (JFunction f, entities)"
  by pat_completeness auto

termination
  by (relation "measure (\<lambda>x. case x of
         Inl (tp, v, e) \<Rightarrow> size v
       | Inr (Inl (tp, vs, e)) \<Rightarrow> size_list size vs
       | Inr (Inr (tp, kvs, acc, e)) \<Rightarrow> size_list (size_prod (\<lambda>x. 0) size) kvs)")
    auto

text \<open>
  \<^verbatim>\<open>normalize(data, typePolicies)\<close> returns \<^verbatim>\<open>{ result, entities }\<close>. HOL has a
  constant of the name \<^verbatim>\<open>normalize\<close> already.
\<close>

definition normalize_data :: "jvalue \<Rightarrow> TypePolicies \<Rightarrow> jvalue \<times> entity_map" where
  "normalize_data data typePolicies = normalizeValue typePolicies data []"

section \<open>Denormalization\<close>

text \<open>
  \<^verbatim>\<open>denormalize(result, entities, visited)\<close>. The \<^verbatim>\<open>visited\<close> set is one mutable
  \<^verbatim>\<open>Set<EntityId>\<close> shared by all the recursive calls: every function takes it and
  returns it as it has left it. \<^verbatim>\<open>visited.add\<close> puts a new member last,
  \<^verbatim>\<open>visited.delete\<close> is \<^const>\<open>removeAll\<close>. \<^verbatim>\<open>denormalizeArray\<close> is the \<^verbatim>\<open>map\<close> over an
  array, \<^verbatim>\<open>denormalizeEntries\<close> the loop over \<^verbatim>\<open>Object.entries(obj)\<close>. A reference whose
  \<^verbatim>\<open>__ref\<close> is not a string is a member of no set and a key of no map: the result is
  \<^verbatim>\<open>undefined\<close>.
\<close>

function denormalize :: "jvalue \<Rightarrow> entity_map \<Rightarrow> EntityId list \<Rightarrow> jvalue \<times> EntityId list"
  and denormalizeArray ::
    "jvalue list \<Rightarrow> entity_map \<Rightarrow> EntityId list \<Rightarrow> jvalue list \<times> EntityId list"
  and denormalizeEntries ::
    "jobj \<Rightarrow> jobj \<Rightarrow> entity_map \<Rightarrow> EntityId list \<Rightarrow> jobj \<times> EntityId list"
where
  "denormalize JNull entities visited = (JNull, visited)"
| "denormalize JUndefined entities visited = (JUndefined, visited)"
| "denormalize (JArr rs) entities visited =
     (case denormalizeArray rs entities visited of (vs, visited') \<Rightarrow> (JArr vs, visited'))"
| "denormalize (JObj obj) entities visited =
     (if has_prop obj ''__ref'' then
        (case get_prop obj ''__ref'' of
           JStr entityId \<Rightarrow>
             if entityId \<in> set visited then (JObj [(''__ref'', JStr entityId)], visited)
             else
               (case map_of entities entityId of
                  None \<Rightarrow> (JUndefined, visited)
                | Some entity \<Rightarrow>
                    (case denormalize (JObj entity) entities (visited @ [entityId]) of
                       (denormalized, visited') \<Rightarrow>
                         (denormalized, removeAll entityId visited')))
         | _ \<Rightarrow> (JUndefined, visited))
      else
        (case denormalizeEntries obj [] entities visited of
           (denormalizedObj, visited') \<Rightarrow> (JObj denormalizedObj, visited')))"
| "denormalize (JBool b) entities visited = (JBool b, visited)"
| "denormalize (JNum n) entities visited = (JNum n, visited)"
| "denormalize (JStr s) entities visited = (JStr s, visited)"
| "denormalizeArray [] entities visited = ([], visited)"
| "denormalizeArray (r # rs) entities visited =
     (case denormalize r entities visited of
        (v, visited') \<Rightarrow>
          (case denormalizeArray rs entities visited' of
             (vs, visited'') \<Rightarrow> (v # vs, visited'')))"
| "denormalizeEntries [] denormalizedObj entities visited = (denormalizedObj, visited)"
| "denormalizeEntries ((key, val) # rest) denormalizedObj entities visited =
     (case denormalize val entities visited of
        (v, visited') \<Rightarrow>
          denormalizeEntries rest (assign denormalizedObj key v) entities visited')"
| "denormalize (JFunction f) entities visited = (JFunction f, visited)"
  by pat_completeness auto


lemma visited_restored_dom:
  "denormalize_denormalizeArray_denormalizeEntries_dom (Inl (v, entities, visited)) \<Longrightarrow>
     snd (denormalize v entities visited) = visited"
  "denormalize_denormalizeArray_denormalizeEntries_dom (Inr (Inl (rs, entities, visited))) \<Longrightarrow>
     snd (denormalizeArray rs entities visited) = visited"
  "denormalize_denormalizeArray_denormalizeEntries_dom (Inr (Inr (kvs, acc, entities, visited))) \<Longrightarrow>
     snd (denormalizeEntries kvs acc entities visited) = visited"
proof (induction v entities visited and rs entities visited and kvs acc entities visited
    rule: denormalize_denormalizeArray_denormalizeEntries.pinduct)
  case (4 obj entities visited)
  note dom = "4.hyps"
  show ?case
  proof (cases "has_prop obj ''__ref''")
    case False
    with 4 show ?thesis
      by (auto simp: denormalize.psimps split: prod.splits)
  next
    case True
    show ?thesis
    proof (cases "get_prop obj ''__ref''")
      case (JStr entityId)
      show ?thesis
      proof (cases "map_of entities entityId")
        case None
        with True JStr dom show ?thesis by (simp add: denormalize.psimps)
      next
        case (Some entity)
        show ?thesis
        proof (cases "entityId \<in> set visited")
          case in_path: True
          with True JStr dom show ?thesis by (simp add: denormalize.psimps)
        next
          case not_in_path: False
          from "4.IH"(1) [OF True JStr not_in_path Some]
          have "snd (denormalize (JObj entity) entities (visited @ [entityId])) = visited @ [entityId]" .
          with True JStr dom Some not_in_path show ?thesis
            by (auto simp: denormalize.psimps split: prod.splits)
        qed
      qed
    qed (use True dom in \<open>simp_all add: denormalize.psimps\<close>)
  qed
qed (auto simp: denormalize.psimps denormalizeArray.psimps denormalizeEntries.psimps split: prod.splits)

lemma card_unvisited_less:
  assumes "map_of entities entityId = Some entity" and "entityId \<notin> set visited"
  shows "card (fst ` set entities - set (visited @ [entityId]))
           < card (fst ` set entities - set visited)"
proof -
  from assms(1) have "entityId \<in> fst ` set entities"
    by (metis domI dom_map_of_conv_image_fst)
  with assms(2) have "fst ` set entities - set (visited @ [entityId])
                        \<subset> fst ` set entities - set visited"
    by auto
  then show ?thesis
    by (simp add: psubset_card_mono)
qed

lemma visited_restored_dom_pair:
  "denormalize_denormalizeArray_denormalizeEntries_dom (Inl (v, entities, visited)) \<Longrightarrow>
     (x, y) = denormalize v entities visited \<Longrightarrow> y = visited"
  using visited_restored_dom(1) [of v entities visited] by (metis snd_conv)

termination denormalize
proof (relation "inv_image (less_than <*lex*> less_than) (\<lambda>x. case x of
         Inl (v, e, vis) \<Rightarrow> (card (fst ` set e - set vis), size v)
       | Inr (Inl (vs, e, vis)) \<Rightarrow> (card (fst ` set e - set vis), size_list size vs)
       | Inr (Inr (kvs, acc, e, vis)) \<Rightarrow>
           (card (fst ` set e - set vis), size_list (size_prod (\<lambda>x. 0) size) kvs))",
    goal_cases)
  case 1
  show ?case by (intro wf_inv_image wf_lex_prod wf_less_than)
next
  case (3 obj entities visited entityId entity)
  then show ?case
    using card_unvisited_less [of entities entityId entity visited] by simp
next
  case (6 r rs entities visited x y)
  then have "y = visited" by (rule visited_restored_dom_pair [rotated])
  then show ?case by simp
next
  case (8 key val rest acc entities visited x y)
  then have "y = visited" by (rule visited_restored_dom_pair [rotated])
  then show ?case by simp
qed simp_all

section \<open>Fragments and data masking\<close>

text \<open>
  The part of a GraphQL \<^verbatim>\<open>DocumentNode\<close> that \<^verbatim>\<open>getFragmentFields\<close> reads: the
  definitions with their kind, and in a selection set the \<^verbatim>\<open>Field\<close> nodes with alias,
  name and nested selection set.
\<close>

datatype SelectionNode =
    Field "string option" string "SelectionNode list"
  | FragmentSpread string
  | InlineFragment "SelectionNode list"

datatype DefinitionNode =
    FragmentDefinition string "SelectionNode list"
  | OperationDefinition "SelectionNode list"
  | OtherDefinition

type_synonym DocumentNode = "DefinitionNode list"

text \<open>\<^verbatim>\<open>Set.prototype.add\<close> on a set kept in insertion order.\<close>

definition set_add :: "'a \<Rightarrow> 'a list \<Rightarrow> 'a list" where
  "set_add x xs = (if x \<in> set xs then xs else xs @ [x])"

text \<open>
  \<^verbatim>\<open>extractFieldsFromSelectionSet\<close>: the alias when there is one, the name otherwise;
  nested selections are not entered.
\<close>

fun extractFieldsFromSelectionSet :: "SelectionNode list \<Rightarrow> string list \<Rightarrow> string list" where
  "extractFieldsFromSelectionSet [] fieldSet = fieldSet"
| "extractFieldsFromSelectionSet (Field alias name nested # selections) fieldSet =
     extractFieldsFromSelectionSet selections
       (set_add (case alias of Some a \<Rightarrow> a | None \<Rightarrow> name) fieldSet)"
| "extractFieldsFromSelectionSet (_ # selections) fieldSet =
     extractFieldsFromSelectionSet selections fieldSet"

text \<open>\<^verbatim>\<open>fragment.definitions.find((def) => def.kind === "FragmentDefinition")\<close>.\<close>

fun find_fragment :: "DocumentNode \<Rightarrow> SelectionNode list option" where
  "find_fragment [] = None"
| "find_fragment (FragmentDefinition name selections # defs) = Some selections"
| "find_fragment (_ # defs) = find_fragment defs"

definition getFragmentFields :: "DocumentNode \<Rightarrow> string list" where
  "getFragmentFields fragment =
     (case find_fragment fragment of
        None \<Rightarrow> []
      | Some selectionSet \<Rightarrow>
          set_add ''__typename'' (extractFieldsFromSelectionSet selectionSet []))"

text \<open>
  The callback of \<^verbatim>\<open>value.map\<close> in \<^verbatim>\<open>denormalizeWithMask\<close>: a reference to a stored
  entity that is not being visited is replaced by the whole denormalized entity, any
  other item stays. \<^verbatim>\<open>denormalize\<close> gets a copy of the visited set.
\<close>

fun maskItem :: "entity_map \<Rightarrow> jvalue \<Rightarrow> EntityId list \<Rightarrow> jvalue \<times> EntityId list" where
  "maskItem entities (JObj item) visited =
     (if has_prop item ''__ref'' then
        (case get_prop item ''__ref'' of
           JStr r \<Rightarrow>
             (case map_of entities r of
                Some refEntity \<Rightarrow>
                  if r \<notin> set visited then
                    (fst (denormalize (JObj refEntity) entities (visited @ [r])),
                     removeAll r (visited @ [r]))
                  else (JObj item, visited)
              | None \<Rightarrow> (JObj item, visited))
         | _ \<Rightarrow> (JObj item, visited))
      else (JObj item, visited))"
| "maskItem entities item visited = (item, visited)"

fun maskItems :: "entity_map \<Rightarrow> jvalue list \<Rightarrow> EntityId list \<Rightarrow> jvalue list \<times> EntityId list" where
  "maskItems entities [] visited = ([], visited)"
| "maskItems entities (item # items) visited =
     (case maskItem entities item visited of
        (v, visited') \<Rightarrow>
          (case maskItems entities items visited' of (vs, visited'') \<Rightarrow> (v # vs, visited'')))"

text \<open>
  The body of the loop \<^verbatim>\<open>for (const fieldName of fragmentFields)\<close>, on a field the
  entity has: the value that \<^verbatim>\<open>result[fieldName]\<close> receives.
\<close>

fun maskValue :: "entity_map \<Rightarrow> jvalue \<Rightarrow> EntityId list \<Rightarrow> jvalue \<times> EntityId list" where
  "maskValue entities (JObj ob) visited =
     (if has_prop ob ''__ref'' then
        (case get_prop ob ''__ref'' of
           JStr r \<Rightarrow>
             (case map_of entities r of
                Some refEntity \<Rightarrow>
                  if r \<notin> set visited then
                    (fst (denormalize (JObj refEntity) entities (visited @ [r])),
                     removeAll r (visited @ [r]))
                  else (JObj ob, visited)
              | None \<Rightarrow> (JObj ob, visited))
         | _ \<Rightarrow> (JObj ob, visited))
      else (JObj ob, visited))"
| "maskValue entities (JArr items) visited =
     (case maskItems entities items visited of (vs, visited') \<Rightarrow> (JArr vs, visited'))"
| "maskValue entities v visited = (v, visited)"

fun maskLoop ::
  "string list \<Rightarrow> jobj \<Rightarrow> entity_map \<Rightarrow> jobj \<Rightarrow> EntityId list \<Rightarrow> jobj \<times> EntityId list"
where
  "maskLoop [] entity entities result visited = (result, visited)"
| "maskLoop (fieldName # rest) entity entities result visited =
     (if \<not> in_obj fieldName entity then maskLoop rest entity entities result visited
      else
        (case maskValue entities (member_read entity fieldName) visited of
           (v, visited') \<Rightarrow>
             maskLoop rest entity entities (assign result fieldName v) visited'))"

text \<open>\<^verbatim>\<open>denormalizeWithMask(entity, entities, fragmentFields, visited)\<close>.\<close>

definition denormalizeWithMask ::
  "jobj \<Rightarrow> entity_map \<Rightarrow> string list \<Rightarrow> EntityId list \<Rightarrow> jvalue"
where
  "denormalizeWithMask entity entities fragmentFields visited =
     JObj (fst (maskLoop fragmentFields entity entities [] visited))"

section \<open>The normalized cache\<close>

text \<open>
  The state of the store \<^verbatim>\<open>useNormalizedCache\<close>: the two refs and the type policies.
  \<^verbatim>\<open>OptimisticLayer\<close> is \<^verbatim>\<open>{ id, entities }\<close>.
\<close>

record OptimisticLayer =
  layer_id :: string
  layer_entities :: entity_map

record cache =
  entities :: entity_map
  optimisticLayers :: "OptimisticLayer list"
  typePolicies :: TypePolicies

text \<open>
  The loop that \<^verbatim>\<open>getEntities\<close> runs for each layer and \<^verbatim>\<open>write\<close> runs for the new
  entities: \<^verbatim>\<open>for (const [id, entity] of incoming)\<close>, merging into a copy of the map.
\<close>

definition mergeEntity :: "EntityId \<times> jobj \<Rightarrow> entity_map \<Rightarrow> entity_map" where
  "mergeEntity = (\<lambda>(eid, entity) merged.
     case map_of merged eid of
       Some existing \<Rightarrow> AList.update eid (spread existing entity) merged
     | None \<Rightarrow> AList.update eid entity merged)"

definition mergeEntities :: "entity_map \<Rightarrow> entity_map \<Rightarrow> entity_map" where
  "mergeEntities merged incoming = fold mergeEntity incoming merged"

definition getEntities :: "cache \<Rightarrow> entity_map" where
  "getEntities st =
     (if optimisticLayers st = [] then entities st
      else fold (\<lambda>layer merged. mergeEntities merged (layer_entities layer))
             (optimisticLayers st) (entities st))"

text \<open>\<^verbatim>\<open>write(data)\<close>; the name \<^verbatim>\<open>write\<close> is a keyword of Isabelle.\<close>

definition cache_write :: "jvalue \<Rightarrow> cache \<Rightarrow> cache" where
  "cache_write data st =
     st\<lparr>entities := mergeEntities (entities st) (snd (normalize_data data (typePolicies st)))\<rparr>"

text \<open>
  A JavaScript call returns a value or throws one. \<^verbatim>\<open>read\<close> wraps
  \<^verbatim>\<open>getEntities\<close> and \<^verbatim>\<open>denormalize\<close> in \<^verbatim>\<open>try { ... } catch { return null }\<close>;
  \<^verbatim>\<open>read_with\<close> is \<^verbatim>\<open>read\<close> over any behaviour of the denormalizer it calls.
\<close>

datatype 'a completion = Returns 'a | Throws jvalue

definition read_with ::
  "(jvalue \<Rightarrow> entity_map \<Rightarrow> jvalue completion) \<Rightarrow> jvalue \<Rightarrow> cache \<Rightarrow> jvalue completion"
where
  "read_with denorm rootResult st =
     (case denorm rootResult (getEntities st) of
        Returns v \<Rightarrow> Returns v
      | Throws e \<Rightarrow> Returns JNull)"

definition read :: "jvalue \<Rightarrow> cache \<Rightarrow> jvalue completion" where
  "read rootResult st =
     read_with (\<lambda>r allEntities. Returns (fst (denormalize r allEntities []))) rootResult st"

text \<open>
  The \<^verbatim>\<open>id\<close> argument of the fragment operations: an \<^verbatim>\<open>EntityId\<close> or an object. A
  missing identity and the empty string both fail the test \<^verbatim>\<open>!entityId\<close>.
\<close>

datatype id_arg = ById EntityId | ByObject jobj

definition resolve_id :: "id_arg \<Rightarrow> TypePolicies \<Rightarrow> EntityId option" where
  "resolve_id i tp =
     (case (case i of ById s \<Rightarrow> Some s | ByObject ob \<Rightarrow> getEntityId ob tp) of
        None \<Rightarrow> None
      | Some s \<Rightarrow> if s = [] then None else Some s)"

definition readFragment :: "id_arg \<Rightarrow> DocumentNode option \<Rightarrow> cache \<Rightarrow> jvalue" where
  "readFragment i fragment st =
     (case resolve_id i (typePolicies st) of
        None \<Rightarrow> JNull
      | Some entityId \<Rightarrow>
          (let allEntities = getEntities st in
           case map_of allEntities entityId of
             None \<Rightarrow> JNull
           | Some entity \<Rightarrow>
               (case fragment of
                  Some doc \<Rightarrow> denormalizeWithMask entity allEntities (getFragmentFields doc) []
                | None \<Rightarrow> fst (denormalize (JObj entity) allEntities []))))"

definition writeFragment :: "id_arg \<Rightarrow> jobj \<Rightarrow> cache \<Rightarrow> cache" where
  "writeFragment i data st =
     (case resolve_id i (typePolicies st) of
        None \<Rightarrow> st
      | Some entityId \<Rightarrow>
          (case map_of (entities st) entityId of
             Some existing \<Rightarrow>
               st\<lparr>entities := AList.update entityId (spread existing data) (entities st)\<rparr>
           | None \<Rightarrow> st\<lparr>entities := AList.update entityId data (entities st)\<rparr>))"

text \<open>
  \<^verbatim>\<open>evict(id, fieldName?)\<close> returns whether it found the entity. The test
  \<^verbatim>\<open>if (fieldName)\<close> fails for a missing and for an empty field name.
\<close>

definition evict :: "id_arg \<Rightarrow> string option \<Rightarrow> cache \<Rightarrow> bool \<times> cache" where
  "evict i fieldName st =
     (case resolve_id i (typePolicies st) of
        None \<Rightarrow> (False, st)
      | Some entityId \<Rightarrow>
          (case map_of (entities st) entityId of
             None \<Rightarrow> (False, st)
           | Some entity \<Rightarrow>
               (case fieldName of
                  Some f \<Rightarrow>
                    if f \<noteq> [] then
                      (True, st\<lparr>entities :=
                         AList.update entityId (AList.delete f entity) (entities st)\<rparr>)
                    else (True, st\<lparr>entities := AList.delete entityId (entities st)\<rparr>)
                | None \<Rightarrow> (True, st\<lparr>entities := AList.delete entityId (entities st)\<rparr>))))"

definition clear :: "cache \<Rightarrow> cache" where
  "clear st = st\<lparr>entities := [], optimisticLayers := []\<rparr>"

definition addOptimisticLayer :: "string \<Rightarrow> jvalue \<Rightarrow> cache \<Rightarrow> cache" where
  "addOptimisticLayer layerId data st =
     st\<lparr>optimisticLayers := optimisticLayers st @
          [\<lparr>layer_id = layerId, layer_entities = snd (normalize_data data (typePolicies st))\<rparr>]\<rparr>"

definition removeOptimisticLayer :: "string \<Rightarrow> cache \<Rightarrow> cache" where
  "removeOptimisticLayer layerId st =
     st\<lparr>optimisticLayers := filter (\<lambda>layer. layer_id layer \<noteq> layerId) (optimisticLayers st)\<rparr>"

text \<open>\<^verbatim>\<open>getEntity\<close> reads one entity of the composed view.\<close>

definition getEntity :: "EntityId \<Rightarrow> cache \<Rightarrow> jobj option" where
  "getEntity i st = map_of (getEntities st) i"

section \<open>Notions used in the statements\<close>

text \<open>
  Well-formed objects and maps: no key twice. A JavaScript object and a \<^verbatim>\<open>Map\<close> are
  always so. A proper object is well-formed and has no own property \<^verbatim>\<open>__proto__\<close>, the one
  key at which assignment is not the definition of a property.
\<close>

definition wf_obj :: "jobj \<Rightarrow> bool" where
  "wf_obj ob = distinct (map fst ob)"

definition proper_obj :: "jobj \<Rightarrow> bool" where
  "proper_obj ob = (wf_obj ob \<and> \<not> has_prop ob ''__proto__'')"

definition proper_map :: "entity_map \<Rightarrow> bool" where
  "proper_map ents = list_all (\<lambda>(eid, rec). proper_obj rec) ents"

definition wf_map :: "entity_map \<Rightarrow> bool" where
  "wf_map ents = (distinct (map fst ents) \<and> list_all (\<lambda>(eid, rec). wf_obj rec) ents)"

text \<open>
  The identifier format as the specification words it: the type name, then every part
  after a colon; a part is the string of a string, number or boolean and empty otherwise.
\<close>

definition spec_segment :: "jvalue \<Rightarrow> string" where
  "spec_segment v =
     (case v of JStr s \<Rightarrow> js_string v | JNum n \<Rightarrow> js_string v | JBool b \<Rightarrow> js_string v | _ \<Rightarrow> [])"

definition spec_entity_id :: "string \<Rightarrow> string list \<Rightarrow> EntityId" where
  "spec_entity_id typename vs = typename @ concat (map (\<lambda>v. '':'' @ v) vs)"

fun is_string_or_number :: "jvalue \<Rightarrow> bool" where
  "is_string_or_number (JStr s) = True"
| "is_string_or_number (JNum n) = True"
| "is_string_or_number _ = False"

text \<open>Example policies, objects and caches.\<close>

definition product_policies :: TypePolicies where
  "product_policies =
     (\<lambda>t. if t = ''Product'' then Some \<lparr>keyFields = Some (KeyFieldList [''sku'', ''warehouse''])\<rparr>
          else None)"

definition product_object :: jobj where
  "product_object =
     [(''__typename'', JStr ''Product''), (''sku'', JStr ''X''), (''warehouse'', JStr ''W1'')]"

definition sku_policies :: TypePolicies where
  "sku_policies =
     (\<lambda>t. if t = ''Product'' then Some \<lparr>keyFields = Some (KeyFieldList [''sku''])\<rparr> else None)"

definition empty_cache :: cache where
  "empty_cache = \<lparr>entities = [], optimisticLayers = [], typePolicies = (\<lambda>t. None)\<rparr>"

definition user_name :: jvalue where
  "user_name = JObj [(''__typename'', JStr ''User''), (''id'', JStr ''1''), (''name'', JStr ''A'')]"

definition user_email :: jvalue where
  "user_email = JObj [(''__typename'', JStr ''User''), (''id'', JStr ''1''), (''email'', JStr ''a@x'')]"

text \<open>
  A field of a record of an entity map, of a layer and of the composed view; the
  composition of layers over a base map, oldest first.
\<close>

definition record_field :: "entity_map \<Rightarrow> EntityId \<Rightarrow> string \<Rightarrow> jvalue option" where
  "record_field ents eid f = (case map_of ents eid of None \<Rightarrow> None | Some rec \<Rightarrow> map_of rec f)"

definition layer_field :: "OptimisticLayer \<Rightarrow> EntityId \<Rightarrow> string \<Rightarrow> jvalue option" where
  "layer_field layer eid f = record_field (layer_entities layer) eid f"

definition view_field :: "cache \<Rightarrow> EntityId \<Rightarrow> string \<Rightarrow> jvalue option" where
  "view_field st eid f = record_field (getEntities st) eid f"

definition compose_layers :: "entity_map \<Rightarrow> OptimisticLayer list \<Rightarrow> entity_map" where
  "compose_layers base layers =
     fold (\<lambda>layer merged. mergeEntities merged (layer_entities layer)) layers base"

definition user_named :: "string \<Rightarrow> jvalue" where
  "user_named n = JObj [(''__typename'', JStr ''User''), (''id'', JStr ''1''), (''name'', JStr n)]"

definition two_layers :: cache where
  "two_layers =
     addOptimisticLayer ''optimistic-2'' (user_named ''B'')
       (addOptimisticLayer ''optimistic-1'' (user_named ''A'') empty_cache)"

definition one_layer :: cache where
  "one_layer = addOptimisticLayer ''optimistic-1'' (user_named ''A'') (cache_write user_email empty_cache)"

text \<open>A cyclic entity map and a diamond: \<open>A\<close> refers to \<open>B\<close> and \<open>C\<close>, both refer to \<open>D\<close>.\<close>

definition cyclic_map :: entity_map where
  "cyclic_map =
     [(''T:A'', [(''__typename'', JStr ''T''), (''id'', JStr ''A''), (''next'', toEntityRef ''T:B'')]),
      (''T:B'', [(''__typename'', JStr ''T''), (''id'', JStr ''B''), (''next'', toEntityRef ''T:A'')])]"

definition diamond_map :: entity_map where
  "diamond_map =
     [(''T:A'', [(''id'', JStr ''A''), (''left'', toEntityRef ''T:B''), (''right'', toEntityRef ''T:C'')]),
      (''T:B'', [(''id'', JStr ''B''), (''down'', toEntityRef ''T:D'')]),
      (''T:C'', [(''id'', JStr ''C''), (''down'', toEntityRef ''T:D'')]),
      (''T:D'', [(''id'', JStr ''D'')])]"

text \<open>
  The output names of the top-level fields of a selection set, and the object that
  \<^verbatim>\<open>denormalizeWithMask\<close> builds when called as \<^verbatim>\<open>readFragment\<close> calls it.
\<close>

fun top_level_names :: "SelectionNode list \<Rightarrow> string list" where
  "top_level_names [] = []"
| "top_level_names (Field alias name nested # selections) =
     (case alias of Some a \<Rightarrow> a | None \<Rightarrow> name) # top_level_names selections"
| "top_level_names (_ # selections) = top_level_names selections"

definition masked_fields :: "jobj \<Rightarrow> entity_map \<Rightarrow> string list \<Rightarrow> jobj" where
  "masked_fields entity ents fragmentFields = fst (maskLoop fragmentFields entity ents [] [])"

definition stored_user :: jobj where
  "stored_user =
     [(''__typename'', JStr ''User''), (''id'', JStr ''1''), (''name'', JStr ''A''),
      (''email'', JStr ''e''), (''phone'', JStr ''555'')]"

definition user_fragment :: DocumentNode where
  "user_fragment =
     [FragmentDefinition ''UserCard_user'' [Field None ''name'' [], Field None ''email'' []]]"

definition toString_fragment :: DocumentNode where
  "toString_fragment =
     [FragmentDefinition ''UserCard_user'' [Field None ''name'' [], Field None ''toString'' []]]"

text \<open>
  Properties of every object inside a value: well-formed (every object proper: no key
  twice and no own key \<^verbatim>\<open>__proto__\<close>), free of reference objects, and free of objects with a
  resolvable identity.
\<close>

fun every_object :: "(jobj \<Rightarrow> bool) \<Rightarrow> jvalue \<Rightarrow> bool"
  and every_object_list :: "(jobj \<Rightarrow> bool) \<Rightarrow> jvalue list \<Rightarrow> bool"
  and every_object_fields :: "(jobj \<Rightarrow> bool) \<Rightarrow> jobj \<Rightarrow> bool"
where
  "every_object P (JArr vs) = every_object_list P vs"
| "every_object P (JObj ob) = (P ob \<and> every_object_fields P ob)"
| "every_object P v = True"
| "every_object_list P [] = True"
| "every_object_list P (v # vs) = (every_object P v \<and> every_object_list P vs)"
| "every_object_fields P [] = True"
| "every_object_fields P ((k, v) # rest) = (every_object P v \<and> every_object_fields P rest)"

definition wf_value :: "jvalue \<Rightarrow> bool" where
  "wf_value = every_object proper_obj"

definition no_refs :: "jvalue \<Rightarrow> bool" where
  "no_refs = every_object (\<lambda>ob. \<not> has_prop ob ''__ref'')"

definition entity_free :: "TypePolicies \<Rightarrow> jvalue \<Rightarrow> bool" where
  "entity_free tp = every_object (\<lambda>ob. getEntityId ob tp = None)"

text \<open>
  The two effects of \<^const>\<open>normalizeValue\<close> apart: the result tree, and the records it
  merges into the entity map, in the order of the traversal.
\<close>

function normResult :: "TypePolicies \<Rightarrow> jvalue \<Rightarrow> jvalue"
  and normArray :: "TypePolicies \<Rightarrow> jvalue list \<Rightarrow> jvalue list"
  and normEntries :: "TypePolicies \<Rightarrow> jobj \<Rightarrow> jobj \<Rightarrow> jobj"
where
  "normResult tp (JArr vs) = JArr (normArray tp vs)"
| "normResult tp (JObj ob) =
     (case getEntityId ob tp of
        None \<Rightarrow> JObj (normEntries tp ob [])
      | Some eid \<Rightarrow> if eid = [] then JObj (normEntries tp ob []) else toEntityRef eid)"
| "normResult tp JUndefined = JUndefined"
| "normResult tp JNull = JNull"
| "normResult tp (JBool b) = JBool b"
| "normResult tp (JNum n) = JNum n"
| "normResult tp (JStr s) = JStr s"
| "normArray tp [] = []"
| "normArray tp (v # vs) = normResult tp v # normArray tp vs"
| "normEntries tp [] acc = acc"
| "normEntries tp ((k, v) # rest) acc = normEntries tp rest (assign acc k (normResult tp v))"
| "normResult tp (JFunction f) = JFunction f"
  by pat_completeness auto

termination normResult
  by (relation "measure (\<lambda>x. case x of
         Inl (tp, v) \<Rightarrow> size v
       | Inr (Inl (tp, vs)) \<Rightarrow> size_list size vs
       | Inr (Inr (tp, kvs, acc)) \<Rightarrow> size_list (size_prod (\<lambda>x. 0) size) kvs)")
    auto

function entityWrites :: "TypePolicies \<Rightarrow> jvalue \<Rightarrow> entity_map"
  and entityWritesArray :: "TypePolicies \<Rightarrow> jvalue list \<Rightarrow> entity_map"
  and entityWritesFields :: "TypePolicies \<Rightarrow> jobj \<Rightarrow> entity_map"
where
  "entityWrites tp (JArr vs) = entityWritesArray tp vs"
| "entityWrites tp (JObj ob) =
     entityWritesFields tp ob @
       (case getEntityId ob tp of
          None \<Rightarrow> []
        | Some eid \<Rightarrow> if eid = [] then [] else [(eid, normEntries tp ob [])])"
| "entityWrites tp JUndefined = []"
| "entityWrites tp JNull = []"
| "entityWrites tp (JBool b) = []"
| "entityWrites tp (JNum n) = []"
| "entityWrites tp (JStr s) = []"
| "entityWritesArray tp [] = []"
| "entityWritesArray tp (v # vs) = entityWrites tp v @ entityWritesArray tp vs"
| "entityWritesFields tp [] = []"
| "entityWritesFields tp ((k, v) # rest) = entityWrites tp v @ entityWritesFields tp rest"
| "entityWrites tp (JFunction f) = []"
  by pat_completeness auto

termination entityWrites
  by (relation "measure (\<lambda>x. case x of
         Inl (tp, v) \<Rightarrow> size v
       | Inr (Inl (tp, vs)) \<Rightarrow> size_list size vs
       | Inr (Inr (tp, kvs)) \<Rightarrow> size_list (size_prod (\<lambda>x. 0) size) kvs)")
    auto

text \<open>
  A key function gives no key when it returns \<^verbatim>\<open>null\<close> or the empty string. The key
  functions of the policies are stable when normalizing the fields of a well-formed object
  never gives it a key: an object of a type with a key function that has no key has none
  after its fields are normalized. In a normal store no field value of a record contains
  an object with a resolvable identity.
\<close>

definition no_key :: "string option \<Rightarrow> bool" where
  "no_key r = (r = None \<or> r = Some [])"

definition key_functions_stable :: "TypePolicies \<Rightarrow> bool" where
  "key_functions_stable tp =
     (\<forall>ob f. wf_value (JObj ob) \<longrightarrow> truthy (get_prop ob ''__typename'') \<longrightarrow>
        policy_keyFields tp (get_prop ob ''__typename'') = Some (KeyFieldsFunction f) \<longrightarrow>
        no_key (f ob) \<longrightarrow> no_key (f (normEntries tp ob [])))"

definition store_normal :: "TypePolicies \<Rightarrow> entity_map \<Rightarrow> bool" where
  "store_normal tp ents =
     list_all (\<lambda>(eid, rec). every_object_fields (\<lambda>ob. getEntityId ob tp = None) rec) ents"

text \<open>
  The states reached from the empty cache by \<^verbatim>\<open>write\<close> of a well-formed value,
  \<^verbatim>\<open>evict\<close>, \<^verbatim>\<open>clear\<close> and the layer operations; \<^verbatim>\<open>writeFragment\<close> is not among them.
\<close>

inductive reachable :: "TypePolicies \<Rightarrow> cache \<Rightarrow> bool" for tp where
  reach_init: "reachable tp \<lparr>entities = [], optimisticLayers = [], typePolicies = tp\<rparr>"
| reach_write: "reachable tp st \<Longrightarrow> wf_value data \<Longrightarrow> reachable tp (cache_write data st)"
| reach_evict: "reachable tp st \<Longrightarrow> reachable tp (snd (evict i fieldName st))"
| reach_clear: "reachable tp st \<Longrightarrow> reachable tp (clear st)"
| reach_add: "reachable tp st \<Longrightarrow> reachable tp (addOptimisticLayer layerId data st)"
| reach_remove: "reachable tp st \<Longrightarrow> reachable tp (removeOptimisticLayer layerId st)"

definition sku_key :: "jobj \<Rightarrow> string option" where
  "sku_key ob = (case get_prop ob ''sku'' of JStr s \<Rightarrow> Some s | _ \<Rightarrow> None)"

definition sku_key_policies :: TypePolicies where
  "sku_key_policies =
     (\<lambda>t. if t = ''Product'' then Some \<lparr>keyFields = Some (KeyFieldsFunction sku_key)\<rparr> else None)"

definition order_payload :: jvalue where
  "order_payload =
     JObj [(''__typename'', JStr ''Order''), (''id'', JNum 7),
           (''item'', JObj [(''__typename'', JStr ''Product''), (''sku'', JStr ''X''),
                            (''dims'', JObj [(''w'', JNum 1)])])]"

text \<open>
  Two more key functions. The first is \<^verbatim>\<open>(ob) => typeof ob.owner?.id === "string" ? ob.owner.id : null\<close>:
  it reads a field of a child object. The second is
  \<^verbatim>\<open>(ob) => typeof ob.child?.__ref === "string" ? ob.child.__ref : null\<close>: it gives a key to an
  object whose child is a reference.
\<close>

definition owner_key :: "jobj \<Rightarrow> string option" where
  "owner_key ob =
     (case get_prop ob ''owner'' of
        JObj owner \<Rightarrow> (case get_prop owner ''id'' of JStr s \<Rightarrow> Some s | _ \<Rightarrow> None)
      | _ \<Rightarrow> None)"

definition owner_key_policies :: TypePolicies where
  "owner_key_policies =
     (\<lambda>t. if t = ''Doc'' then Some \<lparr>keyFields = Some (KeyFieldsFunction owner_key)\<rparr> else None)"

definition shelf_payload :: jvalue where
  "shelf_payload =
     JObj [(''__typename'', JStr ''Shelf''), (''id'', JStr ''1''),
           (''docs'', JArr [
              JObj [(''__typename'', JStr ''Doc''), (''title'', JStr ''a''),
                    (''owner'', JObj [(''__typename'', JStr ''User''), (''id'', JStr ''7'')])],
              JObj [(''__typename'', JStr ''Doc''), (''title'', JStr ''b''),
                    (''cover'', JObj [(''__typename'', JStr ''Image''), (''id'', JStr ''3'')])]])]"

definition ref_child_key :: "jobj \<Rightarrow> string option" where
  "ref_child_key ob =
     (case get_prop ob ''child'' of
        JObj child \<Rightarrow> (case get_prop child ''__ref'' of JStr s \<Rightarrow> Some s | _ \<Rightarrow> None)
      | _ \<Rightarrow> None)"

definition ref_child_policies :: TypePolicies where
  "ref_child_policies =
     (\<lambda>t. if t = ''Box'' then Some \<lparr>keyFields = Some (KeyFieldsFunction ref_child_key)\<rparr> else None)"

definition boxed_payload :: jvalue where
  "boxed_payload =
     JObj [(''__typename'', JStr ''Shelf''), (''id'', JStr ''1''),
           (''box'', JObj [(''__typename'', JStr ''Box''),
                           (''child'', JObj [(''__typename'', JStr ''User''), (''id'', JStr ''1'')])])]"

definition initial_cache :: "TypePolicies \<Rightarrow> cache" where
  "initial_cache tp = \<lparr>entities = [], optimisticLayers = [], typePolicies = tp\<rparr>"

text \<open>
  The round trip of a payload: \<^verbatim>\<open>denormalize(normalize(payload).result, entities)\<close> with
  the entity map of that normalization. The identifiers of the entity objects in a
  payload, in the order in which they are written.
\<close>

definition entity_ids :: "TypePolicies \<Rightarrow> jvalue \<Rightarrow> EntityId list" where
  "entity_ids tp v = map fst (entityWrites tp v)"

definition round_trip :: "jvalue \<Rightarrow> TypePolicies \<Rightarrow> jvalue" where
  "round_trip payload tp =
     (case normalize_data payload tp of (result, ents) \<Rightarrow> fst (denormalize result ents []))"

text \<open>
  The identifiers that the reference objects inside a value name. A ranking of an entity
  map gives every identifier a rank so that every record refers only to identifiers of a
  lower rank: a map that has a ranking is acyclic, and a cyclic map has none.
\<close>

fun refs :: "jvalue \<Rightarrow> EntityId list"
  and refsArray :: "jvalue list \<Rightarrow> EntityId list"
  and refsFields :: "jobj \<Rightarrow> EntityId list"
where
  "refs (JArr vs) = refsArray vs"
| "refs (JObj ob) =
     (case get_prop ob ''__ref'' of JStr i \<Rightarrow> [i] | _ \<Rightarrow> []) @ refsFields ob"
| "refs v = []"
| "refsArray [] = []"
| "refsArray (v # vs) = refs v @ refsArray vs"
| "refsFields [] = []"
| "refsFields ((k, v) # rest) = refs v @ refsFields rest"

definition ranked :: "(EntityId \<Rightarrow> nat) \<Rightarrow> entity_map \<Rightarrow> bool" where
  "ranked rank ents =
     list_all (\<lambda>(i, rec). list_all (\<lambda>j. rank j < rank i) (refs (JObj rec))) ents"

definition below :: "(EntityId \<Rightarrow> nat) \<Rightarrow> EntityId list \<Rightarrow> EntityId list \<Rightarrow> bool" where
  "below rank js visited = (\<forall>j\<in>set js. \<forall>w\<in>set visited. rank j < rank w)"

text \<open>
  The payload as the specification describes the round trip: the structure outside the
  entities as it is, every entity object replaced by the record stored for its
  identifier, the references in the record resolved.
\<close>

fun with_stored_entities :: "TypePolicies \<Rightarrow> entity_map \<Rightarrow> jvalue \<Rightarrow> jvalue"
  and with_stored_entities_array :: "TypePolicies \<Rightarrow> entity_map \<Rightarrow> jvalue list \<Rightarrow> jvalue list"
  and with_stored_entities_fields :: "TypePolicies \<Rightarrow> entity_map \<Rightarrow> jobj \<Rightarrow> jobj"
where
  "with_stored_entities tp ents (JArr vs) = JArr (with_stored_entities_array tp ents vs)"
| "with_stored_entities tp ents (JObj ob) =
     (case getEntityId ob tp of
        None \<Rightarrow> JObj (with_stored_entities_fields tp ents ob)
      | Some eid \<Rightarrow>
          (case map_of ents eid of
             None \<Rightarrow> JUndefined
           | Some rec \<Rightarrow> JObj (map (\<lambda>(k, v). (k, fst (denormalize v ents []))) rec)))"
| "with_stored_entities tp ents v = v"
| "with_stored_entities_array tp ents [] = []"
| "with_stored_entities_array tp ents (v # vs) =
     with_stored_entities tp ents v # with_stored_entities_array tp ents vs"
| "with_stored_entities_fields tp ents [] = []"
| "with_stored_entities_fields tp ents ((k, v) # rest) =
     (k, with_stored_entities tp ents v) # with_stored_entities_fields tp ents rest"

text \<open>
  The record that the specification calls the latest merged field values of an identifier:
  the normalized fields of its first occurrence in the payload, in the order of the
  writes (the entities inside an object before the object), with those of every later
  occurrence spread over them, so that for each field the latest occurrence that has it
  gives the value.
\<close>

definition occurrences :: "TypePolicies \<Rightarrow> jvalue \<Rightarrow> EntityId \<Rightarrow> jobj list" where
  "occurrences tp payload eid = map snd (filter (\<lambda>(i, r). i = eid) (entityWrites tp payload))"

definition merged_record :: "TypePolicies \<Rightarrow> jvalue \<Rightarrow> EntityId \<Rightarrow> jobj option" where
  "merged_record tp payload eid =
     (case occurrences tp payload eid of
        [] \<Rightarrow> None
      | r # rest \<Rightarrow> Some (fold (\<lambda>r acc. spread acc r) rest r))"

definition stored_plain :: "entity_map \<Rightarrow> entity_map \<Rightarrow> bool" where
  "stored_plain ents ws =
     (\<forall>(i, r)\<in>set ws. \<exists>rec. map_of ents i = Some rec \<and> proper_obj rec \<and> \<not> has_prop rec ''__ref'')"

definition plain_map :: "entity_map \<Rightarrow> bool" where
  "plain_map ents = list_all (\<lambda>(i, rec). \<not> has_prop rec ''__ref'') ents"

text \<open>
  Example payloads: an entity nested in itself, an entity that occurs twice with two
  values of one field, and an object with an own key \<^verbatim>\<open>__proto__\<close>, as \<^verbatim>\<open>JSON.parse\<close> gives it.
\<close>

definition self_nested :: jvalue where
  "self_nested =
     JObj [(''__typename'', JStr ''User''), (''id'', JStr ''1''),
           (''friend'', JObj [(''__typename'', JStr ''User''), (''id'', JStr ''1''),
                              (''name'', JStr ''X'')])]"

definition posts_payload :: jvalue where
  "posts_payload =
     JArr [JObj [(''__typename'', JStr ''Post''), (''id'', JStr ''1''),
                 (''author'', JObj [(''__typename'', JStr ''User''), (''id'', JStr ''1''),
                                    (''name'', JStr ''A'')])],
           JObj [(''__typename'', JStr ''Post''), (''id'', JStr ''2''),
                 (''author'', JObj [(''__typename'', JStr ''User''), (''id'', JStr ''1''),
                                    (''name'', JStr ''B''), (''email'', JStr ''e'')])]]"

definition proto_payload :: jvalue where
  "proto_payload = JObj [(''__proto__'', JObj [(''a'', JNum 1)]), (''b'', JNum 2)]"

definition posts_entities :: entity_map where
  "posts_entities =
     [(''User:1'', [(''__typename'', JStr ''User''), (''id'', JStr ''1''), (''name'', JStr ''B''),
                    (''email'', JStr ''e'')]),
      (''Post:1'', [(''__typename'', JStr ''Post''), (''id'', JStr ''1''),
                    (''author'', JObj [(''__ref'', JStr ''User:1'')])]),
      (''Post:2'', [(''__typename'', JStr ''Post''), (''id'', JStr ''2''),
                    (''author'', JObj [(''__ref'', JStr ''User:1'')])])]"

section \<open>Objects, maps and merging\<close>

lemma map_of_spread:
  "wf_obj b \<Longrightarrow> map_of (spread a b) = map_of a ++ map_of b"
  unfolding spread_def wf_obj_def
proof (induction b arbitrary: a)
  case Nil
  then show ?case by simp
next
  case (Cons kv b)
  obtain k v where kv: "kv = (k, v)" by (cases kv)
  from Cons.prems kv have fresh: "k \<notin> fst ` set b" and d: "distinct (map fst b)" by auto
  from fresh have "map_of b k = None" by (simp add: map_of_eq_None_iff)
  then have eq: "map_of (AList.update k v a) ++ map_of b = map_of a ++ map_of (kv # b)"
    by (auto simp: kv update_conv' map_add_def fun_eq_iff split: option.splits)
  have "fold (\<lambda>(k, v). AList.update k v) (kv # b) a
          = fold (\<lambda>(k, v). AList.update k v) b (AList.update k v a)"
    by (simp add: kv)
  then show ?case
    by (simp only: Cons.IH [OF d] eq)
qed

lemma wf_obj_spread: "wf_obj a \<Longrightarrow> wf_obj (spread a b)"
  unfolding spread_def wf_obj_def
  by (induction b arbitrary: a) (auto simp: distinct_update)

lemma wf_obj_update: "wf_obj a \<Longrightarrow> wf_obj (AList.update k v a)"
  unfolding wf_obj_def by (simp add: distinct_update)

lemma wf_obj_assign: "wf_obj a \<Longrightarrow> wf_obj (assign a k v)"
  by (simp add: assign_def wf_obj_update)

lemma has_prop_update: "has_prop (AList.update k v acc) k' \<longleftrightarrow> k' = k \<or> has_prop acc k'"
  by (simp add: has_prop_def update_conv')

lemma has_prop_assign:
  "has_prop (assign acc k v) k' \<longleftrightarrow> (k' = k \<and> k \<noteq> ''__proto__'') \<or> has_prop acc k'"
  by (auto simp: assign_def has_prop_update)

lemma has_prop_Cons: "has_prop ((k, v) # rest) k' \<longleftrightarrow> k' = k \<or> has_prop rest k'"
  by (simp add: has_prop_def)

lemma has_prop_spread: "has_prop (spread a b) k \<longleftrightarrow> has_prop a k \<or> has_prop b k"
  unfolding spread_def
proof (induction b arbitrary: a)
  case Nil
  show ?case by (simp add: has_prop_def)
next
  case (Cons p b)
  obtain k' v where p: "p = (k', v)" by (cases p)
  show ?case
    using Cons [of "AList.update k' v a"]
    by (auto simp: p has_prop_update has_prop_Cons)
qed

lemma proper_obj_Nil: "proper_obj []"
  by (simp add: proper_obj_def wf_obj_def has_prop_def)

lemma proper_obj_assign: "proper_obj a \<Longrightarrow> proper_obj (assign a k v)"
  by (auto simp: proper_obj_def wf_obj_assign has_prop_assign)

lemma proper_obj_spread: "proper_obj a \<Longrightarrow> proper_obj b \<Longrightarrow> proper_obj (spread a b)"
  by (simp add: proper_obj_def wf_obj_spread has_prop_spread)

lemma proper_map_update:
  "proper_map ents \<Longrightarrow> proper_obj rec \<Longrightarrow> proper_map (AList.update eid rec ents)"
  unfolding proper_map_def by (induction ents) auto

lemma proper_map_lookup: "proper_map ents \<Longrightarrow> map_of ents eid = Some rec \<Longrightarrow> proper_obj rec"
  unfolding proper_map_def by (auto simp: list_all_iff dest: map_of_SomeD)

lemma wf_map_update:
  "wf_map ents \<Longrightarrow> wf_obj rec \<Longrightarrow> wf_map (AList.update eid rec ents)"
  unfolding wf_map_def
  by (induction ents) (auto simp: distinct_update update_keys)

lemma wf_map_lookup: "wf_map ents \<Longrightarrow> map_of ents eid = Some rec \<Longrightarrow> wf_obj rec"
  unfolding wf_map_def by (auto simp: list_all_iff dest: map_of_SomeD)

lemma wf_normalize_aux:
  "wf_map ents \<Longrightarrow> wf_map (snd (normalizeValue tp v ents))"
  "wf_map ents \<Longrightarrow> wf_map (snd (normalizeArray tp vs ents))"
  "wf_map ents \<Longrightarrow> wf_obj acc \<Longrightarrow>
     wf_map (snd (normalizeEntries tp kvs acc ents)) \<and> wf_obj (fst (normalizeEntries tp kvs acc ents))"
proof (induction tp v ents and tp vs ents and tp kvs acc ents
    rule: normalizeValue_normalizeArray_normalizeEntries.induct)
  case (4 tp obj ents)
  have acc0: "wf_obj []" by (simp add: wf_obj_def)
  obtain n e' where ne: "normalizeEntries tp obj [] ents = (n, e')" by force
  with "4.IH" [OF refl "4.prems" acc0] have wf: "wf_map e'" "wf_obj n" by simp_all
  show ?case
    using ne wf
    by (auto simp: Let_def intro!: wf_map_update wf_obj_spread dest: wf_map_lookup [OF wf(1)]
        split: option.splits)
next
  case (9 tp v vs ents)
  then show ?case by (auto split: prod.splits)
next
  case (11 tp key val rest acc ents)
  then show ?case by (auto split: prod.splits simp: wf_obj_assign)
qed (auto split: prod.splits)

lemma wf_normalize: "wf_map (snd (normalize_data data tp))"
  unfolding normalize_data_def by (rule wf_normalize_aux(1)) (simp add: wf_map_def)

lemma proper_normalize_aux:
  "proper_map ents \<Longrightarrow> proper_map (snd (normalizeValue tp v ents))"
  "proper_map ents \<Longrightarrow> proper_map (snd (normalizeArray tp vs ents))"
  "proper_map ents \<Longrightarrow> proper_obj acc \<Longrightarrow>
     proper_map (snd (normalizeEntries tp kvs acc ents))
     \<and> proper_obj (fst (normalizeEntries tp kvs acc ents))"
proof (induction tp v ents and tp vs ents and tp kvs acc ents
    rule: normalizeValue_normalizeArray_normalizeEntries.induct)
  case (4 tp obj ents)
  obtain n e' where ne: "normalizeEntries tp obj [] ents = (n, e')" by force
  with "4.IH" [OF refl "4.prems" proper_obj_Nil] have p: "proper_map e'" "proper_obj n" by simp_all
  show ?case
    using ne p
    by (auto simp: Let_def intro!: proper_map_update proper_obj_spread
        dest: proper_map_lookup [OF p(1)] split: option.splits)
next
  case (9 tp v vs ents)
  then show ?case by (auto split: prod.splits)
next
  case (11 tp key val rest acc ents)
  then show ?case by (auto split: prod.splits simp: proper_obj_assign)
qed (auto split: prod.splits)

lemma proper_normalize: "proper_map (snd (normalize_data data tp))"
  unfolding normalize_data_def by (rule proper_normalize_aux(1)) (simp add: proper_map_def)

lemma map_of_mergeEntity:
  "map_of (mergeEntity (eid, rec) merged) =
     (map_of merged)(eid \<mapsto> (case map_of merged eid of Some old \<Rightarrow> spread old rec | None \<Rightarrow> rec))"
  by (simp add: mergeEntity_def update_conv' split: option.splits)

lemma map_of_mergeEntities:
  "distinct (map fst incoming) \<Longrightarrow>
   map_of (mergeEntities merged incoming) eid =
     (case map_of incoming eid of
        None \<Rightarrow> map_of merged eid
      | Some rec \<Rightarrow> Some (case map_of merged eid of Some old \<Rightarrow> spread old rec | None \<Rightarrow> rec))"
  unfolding mergeEntities_def
proof (induction incoming arbitrary: merged)
  case Nil
  then show ?case by simp
next
  case (Cons p incoming)
  obtain i r where p: "p = (i, r)" by (cases p)
  from Cons.prems p have fresh: "map_of incoming i = None" and d: "distinct (map fst incoming)"
    by (auto simp: map_of_eq_None_iff)
  show ?case
    using Cons.IH [OF d, of "mergeEntity (i, r) merged"] fresh
    by (auto simp: p map_of_mergeEntity split: option.splits)
qed

lemmas cache_eval =
  getEntityId_def policy_keyFields_def get_prop_def has_prop_def default_id_def toEntityRef_def
  spread_def assign_def normalize_data_def mergeEntities_def mergeEntity_def cache_write_def

lemma normalize_user_email:
  "normalize_data user_email (\<lambda>t. None) =
     (JObj [(''__ref'', JStr ''User:1'')],
      [(''User:1'', [(''__typename'', JStr ''User''), (''id'', JStr ''1''), (''email'', JStr ''a@x'')])])"
  by (simp add: user_email_def cache_eval)

lemma write_user_name:
  "entities (cache_write user_name empty_cache) =
     [(''User:1'', [(''__typename'', JStr ''User''), (''id'', JStr ''1''), (''name'', JStr ''A'')])]"
  by (simp add: user_name_def empty_cache_def cache_eval)

section \<open>Identity resolution\<close>

lemma join_prefixed: "vs \<noteq> [] \<Longrightarrow> sep @ join sep vs = concat (map (\<lambda>v. sep @ v) vs)"
  by (induction sep vs rule: join.induct) simp_all

lemma in_obj_ref: "in_obj ''__ref'' ob = has_prop ob ''__ref''"
  by (simp add: in_obj_def object_prototype_names_def)

lemma member_read_own:
  "key \<notin> set object_prototype_names \<Longrightarrow> member_read ob key = get_prop ob key"
  by (simp add: member_read_def get_prop_def)

lemma spec_segment_member_read:
  "spec_segment (member_read object f) = spec_segment (get_prop object f)"
proof (cases "map_of object f")
  case None
  then show ?thesis by (simp add: member_read_def get_prop_def spec_segment_def)
next
  case (Some v)
  then show ?thesis by (simp add: member_read_def get_prop_def)
qed

lemma keyPart_spec: "keyPart object f = spec_segment (get_prop object f)"
proof -
  have "keyPart object f = spec_segment (member_read object f)"
    by (simp add: spec_segment_def split: jvalue.splits)
  then show ?thesis by (simp only: spec_segment_member_read)
qed

text \<open>
  Claim C9. With a type policy whose \<^verbatim>\<open>keyFields\<close> is the list \<open>f1, ..., fn\<close> and an object
  whose \<^verbatim>\<open>__typename\<close> is a non-empty string, the identifier is the type name followed by
  \<open>:v1:v2:...:vn\<close>, where \<open>vi\<close> is the string of the field \<open>fi\<close> when that is a string, a
  number or a boolean, and empty when the field is missing, null or not primitive.
\<close>

theorem getEntityId_key_list:
  assumes "get_prop object ''__typename'' = JStr typename" and "typename \<noteq> []"
    and "policy_keyFields tp (JStr typename) = Some (KeyFieldList names)" and "names \<noteq> []"
  shows "getEntityId object tp =
           Some (spec_entity_id typename (map (\<lambda>f. spec_segment (get_prop object f)) names))"
proof -
  have "getEntityId object tp = Some (typename @ '':'' @ join '':'' (map (keyPart object) names))"
    using assms(1-3) by (simp add: getEntityId_def del: keyPart.simps)
  also have "'':'' @ join '':'' (map (keyPart object) names)
               = concat (map (\<lambda>v. '':'' @ v) (map (keyPart object) names))"
    using assms(4) by (intro join_prefixed) simp
  finally show ?thesis
    by (simp add: spec_entity_id_def keyPart_spec comp_def del: keyPart.simps)
qed

theorem getEntityId_key_list_witness:
  "getEntityId product_object product_policies = Some ''Product:X:W1''"
  using getEntityId_key_list [of product_object "''Product''" product_policies "[''sku'', ''warehouse'']"]
  by (simp add: product_object_def product_policies_def policy_keyFields_def get_prop_def
      spec_entity_id_def spec_segment_def)




section \<open>Writing\<close>

text \<open>
  Claim C4. When the store has a record for an identifier and the written data
  normalizes to a record for it, \<^verbatim>\<open>write\<close> leaves the spread of the old and the
  incoming record: as a map, the old fields overridden by the incoming ones, fields
  absent from the incoming record kept.
\<close>

theorem write_merges_existing:
  assumes "map_of (entities st) eid = Some old"
    and "map_of (snd (normalize_data data (typePolicies st))) eid = Some incoming"
  shows "map_of (entities (cache_write data st)) eid = Some (spread old incoming)
         \<and> map_of (spread old incoming) = map_of old ++ map_of incoming"
proof -
  have wf: "wf_map (snd (normalize_data data (typePolicies st)))" by (rule wf_normalize)
  then have "distinct (map fst (snd (normalize_data data (typePolicies st))))"
    by (simp add: wf_map_def)
  from map_of_mergeEntities [OF this, of "entities st" eid] assms
  have "map_of (entities (cache_write data st)) eid = Some (spread old incoming)"
    by (simp add: cache_write_def)
  moreover from wf assms(2) have "wf_obj incoming" by (rule wf_map_lookup)
  then have "map_of (spread old incoming) = map_of old ++ map_of incoming"
    by (rule map_of_spread)
  ultimately show ?thesis by simp
qed

theorem write_merges_existing_witness:
  "map_of (entities (cache_write user_email (cache_write user_name empty_cache))) ''User:1'' =
     Some [(''__typename'', JStr ''User''), (''id'', JStr ''1''), (''name'', JStr ''A''),
           (''email'', JStr ''a@x'')]"
proof -
  have tp: "typePolicies (cache_write user_name empty_cache) = (\<lambda>t. None)"
    by (simp add: cache_write_def empty_cache_def)
  show ?thesis
    using write_merges_existing [of "cache_write user_name empty_cache" "''User:1''"
        "[(''__typename'', JStr ''User''), (''id'', JStr ''1''), (''name'', JStr ''A'')]"
        user_email
        "[(''__typename'', JStr ''User''), (''id'', JStr ''1''), (''email'', JStr ''a@x'')]"]
    by (simp add: tp normalize_user_email write_user_name spread_def)
qed

section \<open>Optimistic layers\<close>

lemma getEntities_compose: "getEntities st = compose_layers (entities st) (optimisticLayers st)"
  by (simp add: getEntities_def compose_layers_def)

lemma record_field_mergeEntities:
  assumes "wf_map incoming"
  shows "record_field (mergeEntities merged incoming) eid f =
           (case record_field incoming eid f of
              Some v \<Rightarrow> Some v
            | None \<Rightarrow> record_field merged eid f)"
proof -
  from assms have d: "distinct (map fst incoming)" by (simp add: wf_map_def)
  show ?thesis
  proof (cases "map_of incoming eid")
    case None
    then show ?thesis
      by (simp add: record_field_def map_of_mergeEntities [OF d])
  next
    case (Some rec)
    with assms have "wf_obj rec" by (rule wf_map_lookup)
    then have "\<And>old. map_of (spread old rec) f =
                 (case map_of rec f of Some v \<Rightarrow> Some v | None \<Rightarrow> map_of old f)"
      by (simp add: map_of_spread map_add_def)
    with Some show ?thesis
      by (simp add: record_field_def map_of_mergeEntities [OF d] split: option.splits)
  qed
qed

lemma record_field_compose_unset:
  assumes "\<forall>layer\<in>set layers. wf_map (layer_entities layer) \<and> layer_field layer eid f = None"
  shows "record_field (compose_layers base layers) eid f = record_field base eid f"
  using assms unfolding compose_layers_def
  by (induction layers arbitrary: base) (simp_all add: record_field_mergeEntities layer_field_def)

lemma normalize_user_named:
  "normalize_data (user_named n) (\<lambda>t. None) =
     (JObj [(''__ref'', JStr ''User:1'')],
      [(''User:1'', [(''__typename'', JStr ''User''), (''id'', JStr ''1''), (''name'', JStr n)])])"
  by (simp add: user_named_def cache_eval)

lemma two_layers_eq:
  "two_layers = \<lparr>entities = [], optimisticLayers =
     [\<lparr>layer_id = ''optimistic-1'', layer_entities =
         [(''User:1'', [(''__typename'', JStr ''User''), (''id'', JStr ''1''), (''name'', JStr ''A'')])]\<rparr>,
      \<lparr>layer_id = ''optimistic-2'', layer_entities =
         [(''User:1'', [(''__typename'', JStr ''User''), (''id'', JStr ''1''), (''name'', JStr ''B'')])]\<rparr>],
     typePolicies = (\<lambda>t. None)\<rparr>"
  by (simp add: two_layers_def addOptimisticLayer_def empty_cache_def normalize_user_named)

text \<open>
  Claim C5. The composed view is the base map with the layers merged in from the oldest
  to the newest, each by the shallow overwrite of \<^verbatim>\<open>write\<close>. So the view shows for a
  field of an entity the value of the newest layer that sets it: the value of a layer
  \<open>layer2\<close> when no layer added after it sets the field, whatever an older layer set.
\<close>

theorem layer_precedence:
  assumes "optimisticLayers st = older @ layer2 # newer"
    and "wf_map (layer_entities layer2)"
    and "layer_field layer2 eid f = Some v"
    and "\<forall>layer\<in>set newer. wf_map (layer_entities layer) \<and> layer_field layer eid f = None"
  shows "getEntities st = compose_layers (entities st) (optimisticLayers st)
         \<and> view_field st eid f = Some v"
proof -
  let ?below = "compose_layers (entities st) older"
  have "compose_layers (entities st) (older @ layer2 # newer) =
          compose_layers (mergeEntities ?below (layer_entities layer2)) newer"
    by (simp add: compose_layers_def)
  then have "view_field st eid f =
               record_field (mergeEntities ?below (layer_entities layer2)) eid f"
    using assms(1,4) by (simp add: view_field_def getEntities_compose record_field_compose_unset)
  also have "\<dots> = Some v"
    using assms(2,3) by (simp add: record_field_mergeEntities layer_field_def)
  finally show ?thesis by (simp add: getEntities_compose)
qed

theorem layer_precedence_witness:
  "view_field two_layers ''User:1'' ''name'' = Some (JStr ''B'')"
  using layer_precedence [of two_layers
      "[\<lparr>layer_id = ''optimistic-1'', layer_entities =
         [(''User:1'', [(''__typename'', JStr ''User''), (''id'', JStr ''1''), (''name'', JStr ''A'')])]\<rparr>]"
      "\<lparr>layer_id = ''optimistic-2'', layer_entities =
         [(''User:1'', [(''__typename'', JStr ''User''), (''id'', JStr ''1''), (''name'', JStr ''B'')])]\<rparr>"
      "[]" "''User:1''" "''name''" "JStr ''B''"]
  by (simp add: two_layers_eq wf_map_def wf_obj_def layer_field_def record_field_def)

text \<open>
  Claim C3. Adding a layer and removing it by its handle gives, over a store without
  other layers, a composed view equal to the base map; when no other layer carries the
  handle, the whole state is as before. Adding and removing layers leave the base
  entity map as it is.
\<close>

theorem optimistic_layer_reversible:
  "(optimisticLayers st = [] \<longrightarrow>
      getEntities (removeOptimisticLayer layerId (addOptimisticLayer layerId data st)) = entities st)
   \<and> ((\<forall>layer\<in>set (optimisticLayers st). layer_id layer \<noteq> layerId) \<longrightarrow>
      removeOptimisticLayer layerId (addOptimisticLayer layerId data st) = st)
   \<and> entities (addOptimisticLayer layerId data st) = entities st
   \<and> entities (removeOptimisticLayer layerId (addOptimisticLayer layerId data st)) = entities st"
proof -
  have "(\<forall>layer\<in>set (optimisticLayers st). layer_id layer \<noteq> layerId) \<Longrightarrow>
          filter (\<lambda>layer. layer_id layer \<noteq> layerId) (optimisticLayers st) = optimisticLayers st"
    by (simp add: filter_id_conv)
  then show ?thesis
    by (simp add: removeOptimisticLayer_def addOptimisticLayer_def getEntities_def)
qed

theorem optimistic_layer_reversible_witness:
  "getEntities (removeOptimisticLayer ''optimistic-1''
      (addOptimisticLayer ''optimistic-1'' (user_named ''A'') (cache_write user_email empty_cache)))
     = entities (cache_write user_email empty_cache)
   \<and> removeOptimisticLayer ''optimistic-2'' (addOptimisticLayer ''optimistic-2'' (user_named ''B'') one_layer)
     = one_layer"
  using optimistic_layer_reversible [of "cache_write user_email empty_cache" "''optimistic-1''" "user_named ''A''"]
    optimistic_layer_reversible [of one_layer "''optimistic-2''" "user_named ''B''"]
  by (simp add: one_layer_def addOptimisticLayer_def removeOptimisticLayer_def getEntities_def
      cache_write_def empty_cache_def)

section \<open>Reading\<close>

text \<open>
  Claim C10. Whatever the denormalizer does for a root shape and a cache state, \<^verbatim>\<open>read\<close>
  returns: \<^verbatim>\<open>null\<close> when the denormalizer throws, its value otherwise. With
  \<^verbatim>\<open>denormalize\<close> itself, \<^verbatim>\<open>read\<close> returns the denormalized root.
\<close>

theorem read_never_throws:
  "(\<exists>v. read_with denorm rootResult st = Returns v)
   \<and> (\<forall>e. denorm rootResult (getEntities st) = Throws e \<longrightarrow>
          read_with denorm rootResult st = Returns JNull)
   \<and> (\<forall>v. denorm rootResult (getEntities st) = Returns v \<longrightarrow>
          read_with denorm rootResult st = Returns v)
   \<and> read rootResult st = Returns (fst (denormalize rootResult (getEntities st) []))"
  by (simp add: read_with_def read_def split: completion.splits)

theorem read_never_throws_witness:
  "read_with (\<lambda>r ents. Throws (JStr ''RangeError'')) (JObj [(''__ref'', JStr ''User:1'')])
      (cache_write user_email empty_cache) = Returns JNull
   \<and> read (JObj [(''__ref'', JStr ''User:1'')]) (cache_write user_email empty_cache)
      = Returns (JObj [(''__typename'', JStr ''User''), (''id'', JStr ''1''), (''email'', JStr ''a@x'')])"
  using read_never_throws [of "\<lambda>r ents. Throws (JStr ''RangeError'')"
      "JObj [(''__ref'', JStr ''User:1'')]" "cache_write user_email empty_cache"]
  by (simp add: user_email_def empty_cache_def cache_eval getEntities_def)

section \<open>Denormalization and the visited set\<close>

text \<open>
  \<^const>\<open>denormalize\<close> is a total function: the termination proof above covers every
  entity map, cyclic or not. Each call leaves the visited set as it found it, so a
  call sees exactly the identifiers on its own path.
\<close>

lemma visited_restored_all:
  "snd (denormalize v ents visited) = visited"
  "snd (denormalizeArray rs ents visited) = visited"
  "snd (denormalizeEntries kvs acc ents visited) = visited"
proof (induction v ents visited and rs ents visited and kvs acc ents visited
    rule: denormalize_denormalizeArray_denormalizeEntries.induct)
  case (4 ob ents visited)
  show ?case
  proof (cases "has_prop ob ''__ref''")
    case False
    with 4 show ?thesis by (auto split: prod.splits)
  next
    case True
    show ?thesis
    proof (cases "get_prop ob ''__ref''")
      case (JStr entityId)
      show ?thesis
      proof (cases "map_of ents entityId")
        case None
        with True JStr show ?thesis by simp
      next
        case (Some entity)
        show ?thesis
        proof (cases "entityId \<in> set visited")
          case in_path: True
          with True JStr show ?thesis by simp
        next
          case not_in_path: False
          from "4.IH"(1) [OF True JStr not_in_path Some]
          have "snd (denormalize (JObj entity) ents (visited @ [entityId])) = visited @ [entityId]" .
          with True JStr Some not_in_path show ?thesis
            by (auto split: prod.splits)
        qed
      qed
    qed (use True in simp_all)
  qed
qed (auto split: prod.splits)

lemma denormalizeArray_map:
  "denormalizeArray rs ents visited = (map (\<lambda>r. fst (denormalize r ents visited)) rs, visited)"
  by (induction rs) (simp_all add: case_prod_beta visited_restored_all)

lemma denormalizeEntries_fold:
  "denormalizeEntries kvs acc ents visited =
     (fold (\<lambda>(k, v) acc. assign acc k (fst (denormalize v ents visited))) kvs acc, visited)"
proof (induction kvs arbitrary: acc)
  case Nil
  show ?case by simp
next
  case (Cons kv kvs)
  obtain k v where kv: "kv = (k, v)" by (cases kv)
  show ?case
    by (simp add: kv case_prod_beta visited_restored_all Cons.IH)
qed

lemma fold_assign_fresh:
  "distinct (map fst kvs) \<Longrightarrow> ''__proto__'' \<notin> fst ` set kvs \<Longrightarrow>
     fst ` set kvs \<inter> fst ` set acc = {} \<Longrightarrow>
     fold (\<lambda>(k, v) acc. assign acc k (g v)) kvs acc = acc @ map (\<lambda>(k, v). (k, g v)) kvs"
proof (induction kvs arbitrary: acc)
  case Nil
  show ?case by simp
next
  case (Cons kv kvs)
  obtain k v where kv: "kv = (k, v)" by (cases kv)
  from Cons.prems kv have fresh: "k \<notin> fst ` set acc" and k: "k \<noteq> ''__proto__''" by auto
  from fresh have "AList.update k (g v) acc = acc @ [(k, g v)]"
    by (induction acc) auto
  with k have upd: "assign acc k (g v) = acc @ [(k, g v)]"
    by (simp add: assign_def)
  from Cons.prems kv have "distinct (map fst kvs)" and "''__proto__'' \<notin> fst ` set kvs"
    and "fst ` set kvs \<inter> fst ` set (acc @ [(k, g v)]) = {}" by auto
  from Cons.IH [OF this] show ?case by (simp add: kv upd)
qed

lemma proper_obj_keys:
  "proper_obj ob \<longleftrightarrow> distinct (map fst ob) \<and> ''__proto__'' \<notin> fst ` set ob"
  by (simp add: proper_obj_def wf_obj_def has_prop_def map_of_eq_None_iff)

lemma denormalizeEntries_map:
  "proper_obj kvs \<Longrightarrow>
   denormalizeEntries kvs [] ents visited =
     (map (\<lambda>(k, v). (k, fst (denormalize v ents visited))) kvs, visited)"
  by (simp add: denormalizeEntries_fold proper_obj_keys fold_assign_fresh)

lemmas denorm_eval =
  toEntityRef_def get_prop_def has_prop_def assign_def cyclic_map_def diamond_map_def

lemma denormalize_cycle:
  "denormalize (toEntityRef ''T:A'') cyclic_map [] =
     (JObj [(''__typename'', JStr ''T''), (''id'', JStr ''A''),
            (''next'', JObj [(''__typename'', JStr ''T''), (''id'', JStr ''B''),
                             (''next'', toEntityRef ''T:A'')])], [])"
  by (simp add: denorm_eval)

lemma denormalize_diamond:
  "denormalize (toEntityRef ''T:A'') diamond_map [] =
     (JObj [(''id'', JStr ''A''),
            (''left'', JObj [(''id'', JStr ''B''), (''down'', JObj [(''id'', JStr ''D'')])]),
            (''right'', JObj [(''id'', JStr ''C''), (''down'', JObj [(''id'', JStr ''D'')])])], [])"
  by (simp add: denorm_eval)

text \<open>
  Claim C2. \<^const>\<open>denormalize\<close> returns for every entity map (it is total) and leaves
  the visited set unchanged. A reference whose identifier is on the current path comes
  back as the raw reference \<^verbatim>\<open>{ __ref: id }\<close>; one that is not on the path and is stored
  is replaced by its record, denormalized with the identifier added to the path. The
  elements of an array and the fields of an object (one without the own key \<^verbatim>\<open>__proto__\<close>,
  which the assignment in the loop does not store) are each denormalized with the visited
  set of their parent, so an entity reached on two sibling branches is resolved on both.
\<close>

theorem denormalize_cycle_safe:
  "snd (denormalize v ents visited) = visited
   \<and> (has_prop ob ''__ref'' \<and> get_prop ob ''__ref'' = JStr entityId \<and> entityId \<in> set visited \<longrightarrow>
        denormalize (JObj ob) ents visited = (JObj [(''__ref'', JStr entityId)], visited))
   \<and> (has_prop ob ''__ref'' \<and> get_prop ob ''__ref'' = JStr entityId \<and> entityId \<notin> set visited
        \<and> map_of ents entityId = Some entity \<longrightarrow>
        fst (denormalize (JObj ob) ents visited)
          = fst (denormalize (JObj entity) ents (visited @ [entityId])))
   \<and> fst (denormalize (JArr rs) ents visited)
        = JArr (map (\<lambda>r. fst (denormalize r ents visited)) rs)
   \<and> (\<not> has_prop ob ''__ref'' \<and> wf_obj ob \<and> \<not> has_prop ob ''__proto__'' \<longrightarrow>
        fst (denormalize (JObj ob) ents visited)
          = JObj (map (\<lambda>(k, x). (k, fst (denormalize x ents visited))) ob))"
proof -
  have "fst (denormalize (JObj ob) ents visited)
          = JObj (map (\<lambda>(k, x). (k, fst (denormalize x ents visited))) ob)"
    if "\<not> has_prop ob ''__ref''" and "wf_obj ob" and "\<not> has_prop ob ''__proto__''"
    using that by (simp add: denormalizeEntries_map proper_obj_def)
  then show ?thesis
    by (simp add: visited_restored_all denormalizeArray_map case_prod_beta)
qed

theorem denormalize_cycle_safe_witness:
  "denormalize (toEntityRef ''T:A'') cyclic_map [''T:A'', ''T:B''] = (toEntityRef ''T:A'', [''T:A'', ''T:B''])
   \<and> fst (denormalize (toEntityRef ''T:D'') diamond_map [''T:A'', ''T:C'']) = JObj [(''id'', JStr ''D'')]
   \<and> fst (denormalize (JObj [(''left'', toEntityRef ''T:B''), (''right'', toEntityRef ''T:C'')]) diamond_map [''T:A''])
       = JObj [(''left'', JObj [(''id'', JStr ''B''), (''down'', JObj [(''id'', JStr ''D'')])]),
               (''right'', JObj [(''id'', JStr ''C''), (''down'', JObj [(''id'', JStr ''D'')])])]"
  using denormalize_cycle_safe [of "toEntityRef ''T:A''" cyclic_map "[''T:A'', ''T:B'']"
      "[(''__ref'', JStr ''T:A'')]" "''T:A''" "[(''id'', JStr ''A'')]" "[]"]
    denormalize_cycle_safe [of "toEntityRef ''T:D''" diamond_map "[''T:A'', ''T:C'']"
      "[(''__ref'', JStr ''T:D'')]" "''T:D''" "[(''id'', JStr ''D'')]" "[]"]
    denormalize_cycle_safe [of "toEntityRef ''T:D''" diamond_map "[''T:A'']"
      "[(''left'', toEntityRef ''T:B''), (''right'', toEntityRef ''T:C'')]" "''T:D''" "[(''id'', JStr ''D'')]" "[]"]
  by (simp add: denorm_eval wf_obj_def)

section \<open>Data masking\<close>

lemma set_set_add [simp]: "set (set_add x xs) = insert x (set xs)"
  by (auto simp: set_add_def)

lemma distinct_set_add [simp]: "distinct xs \<Longrightarrow> distinct (set_add x xs)"
  by (simp add: set_add_def)

lemma set_extractFields:
  "set (extractFieldsFromSelectionSet selections fieldSet) =
     set fieldSet \<union> set (top_level_names selections)"
  by (induction selections fieldSet rule: extractFieldsFromSelectionSet.induct)
    (auto split: option.splits)

lemma set_getFragmentFields:
  "find_fragment doc = Some selections \<Longrightarrow>
     set (getFragmentFields doc) = insert ''__typename'' (set (top_level_names selections))"
  by (simp add: getFragmentFields_def set_extractFields)

lemma maskItem_visited: "snd (maskItem ents item visited) = visited"
  by (cases item) (auto split: jvalue.splits option.splits)

lemma maskItems_visited: "snd (maskItems ents items visited) = visited"
  by (induction items) (simp_all add: case_prod_beta maskItem_visited)

lemma maskValue_visited: "snd (maskValue ents v visited) = visited"
  by (cases v) (auto simp: maskItems_visited case_prod_beta split: jvalue.splits option.splits)

lemma maskLoop_fold:
  "maskLoop fs entity ents result visited =
     (fold (\<lambda>f acc. if in_obj f entity
                      then assign acc f (fst (maskValue ents (member_read entity f) visited))
                      else acc) fs result, visited)"
  by (induction fs arbitrary: result) (simp_all add: case_prod_beta maskValue_visited)

lemma keys_fold_mask:
  "map_of (fold (\<lambda>f acc. if p f then assign acc f (g f) else acc) fs result) k =
     (if k \<in> set fs \<and> p k \<and> k \<noteq> ''__proto__'' then Some (g k) else map_of result k)"
  by (induction fs arbitrary: result) (auto simp: assign_def update_conv')

lemma distinct_fold_mask:
  "distinct (map fst result) \<Longrightarrow>
     distinct (map fst (fold (\<lambda>f acc. if p f then assign acc f (g f) else acc) fs result))"
  by (induction fs arbitrary: result) (auto simp: assign_def distinct_update)

text \<open>
  The fields of the masked object in general: a declared name other than \<^verbatim>\<open>__proto__\<close> is
  in the result when \<^verbatim>\<open>fieldName in entity\<close> holds, with the value that
  \<^verbatim>\<open>entity[fieldName]\<close> reads.
\<close>

lemma masked_fields_map:
  "map_of (masked_fields entity ents fragmentFields) f =
     (if f \<in> set fragmentFields \<and> in_obj f entity \<and> f \<noteq> ''__proto__''
      then Some (fst (maskValue ents (member_read entity f) []))
      else None)"
  by (simp add: masked_fields_def maskLoop_fold keys_fold_mask)

text \<open>
  When no declared field has the name of a member of \<^verbatim>\<open>Object.prototype\<close>, the masked
  result is exact: for a document with a fragment definition the declared fields are the
  output names of its top-level fields and \<^verbatim>\<open>__typename\<close>, and the fields of the result are
  the declared fields that the record has, each with the value of the record (a reference,
  or an array of references, replaced by the denormalized entity).
\<close>

lemma masking_exact_own:
  assumes "find_fragment doc = Some selections"
    and "set (getFragmentFields doc) \<inter> set object_prototype_names = {}"
  shows "denormalizeWithMask entity ents (getFragmentFields doc) []
           = JObj (masked_fields entity ents (getFragmentFields doc))
    \<and> set (getFragmentFields doc) = insert ''__typename'' (set (top_level_names selections))
    \<and> wf_obj (masked_fields entity ents (getFragmentFields doc))
    \<and> map_of (masked_fields entity ents (getFragmentFields doc)) f =
        (if f \<in> set (getFragmentFields doc) \<and> has_prop entity f
         then Some (fst (maskValue ents (get_prop entity f) []))
         else None)"
proof -
  have proto: "''__proto__'' \<in> set object_prototype_names"
    by (simp add: object_prototype_names_def)
  have own: "in_obj f entity = has_prop entity f" "member_read entity f = get_prop entity f"
    "f \<noteq> ''__proto__''" if "f \<in> set (getFragmentFields doc)"
  proof -
    from that assms(2) have "f \<notin> set object_prototype_names" by blast
    with proto show "in_obj f entity = has_prop entity f"
      "member_read entity f = get_prop entity f" "f \<noteq> ''__proto__''"
      by (auto simp: in_obj_def member_read_own)
  qed
  have "wf_obj (masked_fields entity ents (getFragmentFields doc))"
    by (simp add: masked_fields_def maskLoop_fold wf_obj_def distinct_fold_mask)
  moreover have "map_of (masked_fields entity ents (getFragmentFields doc)) f =
        (if f \<in> set (getFragmentFields doc) \<and> has_prop entity f
         then Some (fst (maskValue ents (get_prop entity f) []))
         else None)"
    using own by (auto simp: masked_fields_map)
  ultimately show ?thesis
    using assms(1) by (simp add: denormalizeWithMask_def masked_fields_def set_getFragmentFields)
qed

lemma mask_stored_user:
  "denormalizeWithMask stored_user [(''User:1'', stored_user)] (getFragmentFields user_fragment) []
     = JObj [(''name'', JStr ''A''), (''email'', JStr ''e''), (''__typename'', JStr ''User'')]"
  by (simp add: denormalizeWithMask_def getFragmentFields_def user_fragment_def stored_user_def
      set_add_def has_prop_def get_prop_def in_obj_def member_read_def assign_def
      object_prototype_names_def)

text \<open>
  Claim C6. The masked result should hold exactly the declared fields that are present on
  the record. The test \<^verbatim>\<open>fieldName in entity\<close> is also true of the names that every
  object inherits from \<^verbatim>\<open>Object.prototype\<close>: for the stored \<^verbatim>\<open>User:1\<close> of the
  specification and a fragment that selects \<^verbatim>\<open>name\<close> and \<^verbatim>\<open>toString\<close>, the record has no
  field \<^verbatim>\<open>toString\<close> and the result has one, the built-in function.
\<close>

theorem masking_emits_inherited_member:
  "\<not> has_prop stored_user ''toString''
   \<and> denormalizeWithMask stored_user [(''User:1'', stored_user)]
         (getFragmentFields toString_fragment) []
       = JObj [(''name'', JStr ''A''), (''toString'', JFunction ''toString''),
               (''__typename'', JStr ''User'')]"
  by (simp add: denormalizeWithMask_def getFragmentFields_def toString_fragment_def
      stored_user_def set_add_def has_prop_def get_prop_def in_obj_def member_read_def
      assign_def object_prototype_names_def)

section \<open>The result and the writes of normalization\<close>

lemma mergeEntity_unfold:
  "(case map_of ents eid of
      Some existing \<Rightarrow> (r, AList.update eid (spread existing n) ents)
    | None \<Rightarrow> (r, AList.update eid n ents)) = (r, mergeEntity (eid, n) ents)"
  by (simp add: mergeEntity_def split: option.splits)

lemma normalize_split:
  "normalizeValue tp v ents = (normResult tp v, fold mergeEntity (entityWrites tp v) ents)"
  "normalizeArray tp vs ents = (normArray tp vs, fold mergeEntity (entityWritesArray tp vs) ents)"
  "normalizeEntries tp kvs acc ents =
     (normEntries tp kvs acc, fold mergeEntity (entityWritesFields tp kvs) ents)"
proof (induction tp v ents and tp vs ents and tp kvs acc ents
    rule: normalizeValue_normalizeArray_normalizeEntries.induct)
  case (4 tp obj ents)
  from "4.IH" [OF refl] show ?case
    by (simp add: mergeEntity_unfold split: option.splits)
qed simp_all

lemma normalize_data_split:
  "normalize_data data tp = (normResult tp data, mergeEntities [] (entityWrites tp data))"
  by (simp add: normalize_data_def normalize_split mergeEntities_def)

lemma normEntries_fold:
  "normEntries tp kvs acc = fold (\<lambda>(k, v) acc. assign acc k (normResult tp v)) kvs acc"
  by (induction kvs arbitrary: acc) auto

lemma normEntries_map:
  "proper_obj ob \<Longrightarrow> normEntries tp ob [] = map (\<lambda>(k, v). (k, normResult tp v)) ob"
  by (simp add: normEntries_fold proper_obj_keys fold_assign_fresh)

lemma normArray_map: "normArray tp vs = map (normResult tp) vs"
  by (induction vs) simp_all

lemma truthy_norm: "truthy (normResult tp v) = truthy v"
  by (cases v) (auto simp: toEntityRef_def split: option.splits)

lemma norm_null_iff:
  "normResult tp v = JNull \<longleftrightarrow> v = JNull" "normResult tp v = JUndefined \<longleftrightarrow> v = JUndefined"
  by (cases v; auto simp: toEntityRef_def split: option.splits)+

lemma js_string_norm: "js_string (normResult tp v) = js_string v"
proof (induction v)
  case (JArr vs)
  then have eq: "map (\<lambda>v. if v = JNull \<or> v = JUndefined then [] else js_string v) (map (normResult tp) vs)
           = map (\<lambda>v. if v = JNull \<or> v = JUndefined then [] else js_string v) vs"
    by (induction vs) (simp_all add: norm_null_iff)
  show ?case
    by (simp only: normResult.simps js_string.simps normArray_map eq)
qed (auto simp: toEntityRef_def split: option.splits)

lemma map_of_norm:
  "proper_obj ob \<Longrightarrow> map_of (normEntries tp ob []) k = map_option (normResult tp) (map_of ob k)"
  by (simp add: normEntries_map map_of_map case_prod_beta)

lemma get_prop_norm:
  "proper_obj ob \<Longrightarrow> get_prop (normEntries tp ob []) k = normResult tp (get_prop ob k)"
  by (simp add: map_of_norm get_prop_def split: option.splits)

lemma has_prop_norm: "proper_obj ob \<Longrightarrow> has_prop (normEntries tp ob []) k = has_prop ob k"
  by (simp add: map_of_norm has_prop_def)

lemma getEntityId_Nil: "getEntityId [] tp = None"
  by (simp add: getEntityId_def get_prop_def)

lemma member_read_norm:
  "proper_obj ob \<Longrightarrow> member_read (normEntries tp ob []) k = normResult tp (member_read ob k)"
  by (cases "map_of ob k") (simp_all add: member_read_def map_of_norm getEntityId_Nil)

lemma case_norm_scalar:
  "(case normResult tp v of JUndefined \<Rightarrow> u | JNull \<Rightarrow> n | JBool b \<Rightarrow> fb b | JNum i \<Rightarrow> fi i
      | JStr s \<Rightarrow> fs s | JArr xs \<Rightarrow> c | JObj ob \<Rightarrow> c' | JFunction g \<Rightarrow> ff g)
   = (case v of JUndefined \<Rightarrow> u | JNull \<Rightarrow> n | JBool b \<Rightarrow> fb b | JNum i \<Rightarrow> fi i
      | JStr s \<Rightarrow> fs s | JArr xs \<Rightarrow> c | JObj ob \<Rightarrow> c' | JFunction g \<Rightarrow> ff g)"
  by (cases v) (auto simp: toEntityRef_def split: option.splits)

lemma keyPart_norm: "proper_obj ob \<Longrightarrow> keyPart (normEntries tp ob []) f = keyPart ob f"
  by (cases "member_read ob f") (auto simp: member_read_norm toEntityRef_def split: option.splits)

lemma default_id_norm:
  "proper_obj ob \<Longrightarrow> default_id (normEntries tp ob []) = normResult tp (default_id ob)"
  by (simp add: default_id_def get_prop_norm norm_null_iff Let_def)

text \<open>
  An object that has no identity has none after its fields are normalized, when the key
  function of its type, if there is one, is stable.
\<close>

lemma getEntityId_norm_None:
  assumes "wf_value (JObj ob)" and "key_functions_stable tp" and "getEntityId ob tp = None"
  shows "getEntityId (normEntries tp ob []) tp = None"
proof -
  let ?n = "normEntries tp ob []"
  let ?t = "get_prop ob ''__typename''"
  from assms(1) have proper: "proper_obj ob" by (simp add: wf_value_def)
  have t: "js_string (get_prop ?n ''__typename'') = js_string ?t"
    "truthy (get_prop ?n ''__typename'') = truthy ?t"
    using proper by (simp_all add: get_prop_norm js_string_norm truthy_norm)
  then have kf: "policy_keyFields tp (get_prop ?n ''__typename'') = policy_keyFields tp ?t"
    by (simp add: policy_keyFields_def)
  have did: "default_id ?n = normResult tp (default_id ob)"
    using proper by (rule default_id_norm)
  show ?thesis
  proof (cases "truthy ?t")
    case False
    then show ?thesis by (simp add: getEntityId_def t)
  next
    case True
    show ?thesis
    proof (cases "policy_keyFields tp ?t")
      case None
      from assms(3) True None have "\<forall>s. default_id ob \<noteq> JStr s" "\<forall>n. default_id ob \<noteq> JNum n"
        by (auto simp: getEntityId_def Let_def)
      then have "\<forall>s. normResult tp (default_id ob) \<noteq> JStr s"
        "\<forall>n. normResult tp (default_id ob) \<noteq> JNum n"
        by (cases "default_id ob"; auto simp: toEntityRef_def split: option.splits)+
      then show ?thesis
        unfolding getEntityId_def Let_def t kf did None
        by (auto split: jvalue.splits)
    next
      case (Some k)
      show ?thesis
      proof (cases k)
        case (KeyFieldList names)
        with assms(3) Some True have False by (simp add: getEntityId_def del: keyPart.simps)
        then show ?thesis ..
      next
        case (KeyFieldsFunction f)
        with assms(3) Some True have "no_key (f ob)"
          by (auto simp: getEntityId_def no_key_def split: option.splits if_splits)
        with assms(1,2) True Some KeyFieldsFunction have "no_key (f ?n)"
          unfolding key_functions_stable_def by blast
        then show ?thesis
          unfolding getEntityId_def Let_def t kf Some KeyFieldsFunction
          by (auto simp: no_key_def)
      qed
    qed
  qed
qed

section \<open>The shape of the store\<close>

lemma every_fields_update:
  "every_object_fields P acc \<Longrightarrow> every_object P v \<Longrightarrow> every_object_fields P (AList.update k v acc)"
  by (induction acc) auto

lemma every_fields_assign:
  "every_object_fields P acc \<Longrightarrow> every_object P v \<Longrightarrow> every_object_fields P (assign acc k v)"
  by (simp add: assign_def every_fields_update)

lemma every_fields_delete:
  "every_object_fields P acc \<Longrightarrow> every_object_fields P (AList.delete k acc)"
  by (induction acc) auto

lemma every_fields_spread:
  "every_object_fields P a \<Longrightarrow> every_object_fields P b \<Longrightarrow> every_object_fields P (spread a b)"
  unfolding spread_def
  by (induction b arbitrary: a) (auto simp: every_fields_update)

lemma every_fields_lookup:
  "every_object_fields P ob \<Longrightarrow> map_of ob k = Some v \<Longrightarrow> every_object P v"
  by (induction ob) (auto split: if_splits)

lemma norm_entity_free:
  "key_functions_stable tp \<Longrightarrow> wf_value v \<Longrightarrow> entity_free tp (normResult tp v)"
  "key_functions_stable tp \<Longrightarrow> every_object_list proper_obj vs \<Longrightarrow>
     every_object_list (\<lambda>ob. getEntityId ob tp = None) (normArray tp vs)"
  "key_functions_stable tp \<Longrightarrow> every_object_fields proper_obj kvs \<Longrightarrow>
     every_object_fields (\<lambda>ob. getEntityId ob tp = None) acc \<Longrightarrow>
     every_object_fields (\<lambda>ob. getEntityId ob tp = None) (normEntries tp kvs acc)"
  unfolding wf_value_def entity_free_def
proof (induction tp v and tp vs and tp kvs acc rule: normResult_normArray_normEntries.induct)
  case (2 tp ob)
  note stable = "2.prems"(1)
  from "2.prems"(2) have wf: "wf_value (JObj ob)" and fields: "every_object_fields proper_obj ob"
    by (simp_all add: wf_value_def)
  have ref: "getEntityId [(''__ref'', JStr eid)] tp = None" for eid
    by (simp add: getEntityId_def get_prop_def)
  show ?case
  proof (cases "getEntityId ob tp")
    case None
    with "2.IH"(1) [OF None stable fields] getEntityId_norm_None [OF wf stable]
    show ?thesis by simp
  next
    case (Some eid)
    show ?thesis
    proof (cases "eid = []")
      case True
      with Some have False
        by (simp add: getEntityId_def Let_def split: if_splits option.splits KeyFields.splits
            jvalue.splits)
      then show ?thesis ..
    next
      case False
      with Some show ?thesis by (simp add: toEntityRef_def ref)
    qed
  qed
next
  case (11 tp k v rest acc)
  then show ?case by (simp add: every_fields_assign)
qed simp_all

lemma writes_normal:
  "key_functions_stable tp \<Longrightarrow> wf_value v \<Longrightarrow> store_normal tp (entityWrites tp v)"
  "key_functions_stable tp \<Longrightarrow> every_object_list proper_obj vs \<Longrightarrow>
     store_normal tp (entityWritesArray tp vs)"
  "key_functions_stable tp \<Longrightarrow> every_object_fields proper_obj kvs \<Longrightarrow>
     store_normal tp (entityWritesFields tp kvs)"
  unfolding wf_value_def store_normal_def
proof (induction tp v and tp vs and tp kvs rule: entityWrites_entityWritesArray_entityWritesFields.induct)
  case (2 tp ob)
  from "2.prems"(2) have fields: "every_object_fields proper_obj ob" by simp
  have "every_object_fields (\<lambda>ob. getEntityId ob tp = None) (normEntries tp ob [])"
    by (rule norm_entity_free(3) [OF "2.prems"(1) fields]) simp
  with "2.IH" [OF "2.prems"(1) fields] show ?case
    by (simp split: option.splits)
qed simp_all

lemma store_normal_update:
  "store_normal tp ents \<Longrightarrow> every_object_fields (\<lambda>ob. getEntityId ob tp = None) rec \<Longrightarrow>
     store_normal tp (AList.update eid rec ents)"
  unfolding store_normal_def by (induction ents) auto

lemma store_normal_delete: "store_normal tp ents \<Longrightarrow> store_normal tp (AList.delete eid ents)"
  unfolding store_normal_def by (induction ents) auto

lemma store_normal_lookup:
  "store_normal tp ents \<Longrightarrow> map_of ents eid = Some rec \<Longrightarrow>
     every_object_fields (\<lambda>ob. getEntityId ob tp = None) rec"
  unfolding store_normal_def by (auto simp: list_all_iff dest: map_of_SomeD)

lemma store_normal_mergeEntity:
  "store_normal tp ents \<Longrightarrow> every_object_fields (\<lambda>ob. getEntityId ob tp = None) rec \<Longrightarrow>
     store_normal tp (mergeEntity (eid, rec) ents)"
  by (auto simp: mergeEntity_def split: option.splits
      intro!: store_normal_update every_fields_spread dest: store_normal_lookup)

lemma store_normal_mergeEntities:
  "store_normal tp ents \<Longrightarrow> store_normal tp incoming \<Longrightarrow>
     store_normal tp (mergeEntities ents incoming)"
  unfolding mergeEntities_def
proof (induction incoming arbitrary: ents)
  case Nil
  then show ?case by simp
next
  case (Cons p incoming)
  obtain eid rec where p: "p = (eid, rec)" by (cases p)
  from Cons.prems(2) p have "every_object_fields (\<lambda>ob. getEntityId ob tp = None) rec"
    and rest: "store_normal tp incoming" by (simp_all add: store_normal_def)
  with Cons.prems(1) have "store_normal tp (mergeEntity (eid, rec) ents)"
    by (intro store_normal_mergeEntity)
  from Cons.IH [OF this rest] show ?case by (simp add: p)
qed

lemma store_normal_normalize:
  "key_functions_stable tp \<Longrightarrow> wf_value data \<Longrightarrow> store_normal tp (snd (normalize_data data tp))"
proof -
  assume "key_functions_stable tp" and "wf_value data"
  then have "store_normal tp (entityWrites tp data)" by (rule writes_normal(1))
  moreover have "store_normal tp []" by (simp add: store_normal_def)
  ultimately have "store_normal tp (mergeEntities [] (entityWrites tp data))"
    by (intro store_normal_mergeEntities)
  then show ?thesis by (simp add: normalize_data_split)
qed

lemma reachable_policies: "reachable tp st \<Longrightarrow> typePolicies st = tp"
  by (induction rule: reachable.induct)
    (auto simp: cache_write_def evict_def clear_def addOptimisticLayer_def
      removeOptimisticLayer_def split: option.splits)

text \<open>
  Policies without key functions are stable, and so are the policies of \<^const>\<open>owner_key\<close>,
  although that function reads inside a child object: normalization replaces the owner by
  a reference or keeps its \<^verbatim>\<open>id\<close> as it is, and a reference has no \<^verbatim>\<open>id\<close>.
\<close>

lemma no_key_functions_stable:
  "(\<And>t p f. tp t = Some p \<Longrightarrow> keyFields p \<noteq> Some (KeyFieldsFunction f)) \<Longrightarrow>
     key_functions_stable tp"
  by (auto simp: key_functions_stable_def policy_keyFields_def split: option.splits)

lemma getEntityId_nonempty: "getEntityId ob tp = Some eid \<Longrightarrow> eid \<noteq> []"
  by (auto simp: getEntityId_def Let_def split: if_splits option.splits KeyFields.splits
      jvalue.splits)

lemma get_prop_ref_id: "get_prop [(''__ref'', JStr eid)] ''id'' = JUndefined"
  by (simp add: get_prop_def)

lemma owner_key_norm:
  assumes "wf_value (JObj ob)" and "owner_key ob = None"
  shows "owner_key (normEntries tp ob []) = None"
proof -
  from assms(1) have proper: "proper_obj ob" and fields: "every_object_fields proper_obj ob"
    by (simp_all add: wf_value_def)
  have own: "get_prop (normEntries tp ob []) ''owner'' = normResult tp (get_prop ob ''owner'')"
    using proper by (rule get_prop_norm)
  show ?thesis
  proof (cases "get_prop ob ''owner''")
    case (JObj owner)
    then have "map_of ob ''owner'' = Some (JObj owner)"
      by (simp add: get_prop_def split: option.splits)
    with fields have "every_object proper_obj (JObj owner)" by (rule every_fields_lookup)
    then have powner: "proper_obj owner" by simp
    show ?thesis
    proof (cases "getEntityId owner tp")
      case None
      have "get_prop (normEntries tp owner []) ''id'' = normResult tp (get_prop owner ''id'')"
        using powner by (rule get_prop_norm)
      moreover from assms(2) JObj have "\<forall>s. get_prop owner ''id'' \<noteq> JStr s"
        by (auto simp: owner_key_def split: jvalue.splits)
      then have "\<forall>s. normResult tp (get_prop owner ''id'') \<noteq> JStr s"
        by (cases "get_prop owner ''id''") (auto simp: toEntityRef_def split: option.splits)
      ultimately show ?thesis
        using JObj None by (auto simp: owner_key_def own split: jvalue.splits)
    next
      case (Some eid)
      then have "eid \<noteq> []" by (rule getEntityId_nonempty)
      with JObj Some show ?thesis
        by (simp add: owner_key_def own toEntityRef_def get_prop_ref_id)
    qed
  qed (simp_all add: owner_key_def own)
qed

lemma owner_key_policies_stable: "key_functions_stable owner_key_policies"
  unfolding key_functions_stable_def
proof (intro allI impI)
  fix ob f
  assume wf: "wf_value (JObj ob)"
    and pol: "policy_keyFields owner_key_policies (get_prop ob ''__typename'') =
                Some (KeyFieldsFunction f)"
    and nk: "no_key (f ob)"
  from pol have f: "f = owner_key"
    by (auto simp: policy_keyFields_def owner_key_policies_def split: if_splits)
  show "no_key (f (normEntries owner_key_policies ob []))"
  proof (cases "owner_key ob")
    case None
    with wf show ?thesis by (simp add: f no_key_def owner_key_norm)
  next
    case (Some s)
    with nk f have s: "s = []" by (simp add: no_key_def)
    from wf have proper: "proper_obj ob" and fields: "every_object_fields proper_obj ob"
      by (simp_all add: wf_value_def)
    from Some obtain owner where owner: "get_prop ob ''owner'' = JObj owner"
      and oid: "get_prop owner ''id'' = JStr s"
      by (auto simp: owner_key_def split: jvalue.splits)
    from owner have "map_of ob ''owner'' = Some (JObj owner)"
      by (simp add: get_prop_def split: option.splits)
    with fields have "every_object proper_obj (JObj owner)" by (rule every_fields_lookup)
    then have powner: "proper_obj owner" by simp
    have own: "get_prop (normEntries owner_key_policies ob []) ''owner'' =
                 normResult owner_key_policies (JObj owner)"
      using proper owner by (simp add: get_prop_norm)
    show ?thesis
    proof (cases "getEntityId owner owner_key_policies")
      case None
      with own powner oid s show ?thesis
        by (simp add: f no_key_def owner_key_def get_prop_norm)
    next
      case (Some eid)
      then have "eid \<noteq> []" by (rule getEntityId_nonempty)
      with own Some show ?thesis
        by (simp add: f no_key_def owner_key_def toEntityRef_def get_prop_ref_id)
    qed
  qed
qed

lemma shelf_payload_wf: "wf_value shelf_payload"
  by (simp add: wf_value_def shelf_payload_def proper_obj_def wf_obj_def has_prop_def)




section \<open>The round trip\<close>

lemma map_of_fold_mergeEntity_distinct:
  "distinct (map fst ws) \<Longrightarrow> (i, rec) \<in> set ws \<Longrightarrow> map_of (mergeEntities [] ws) i = Some rec"
  by (simp add: map_of_mergeEntities)

lemma has_prop_map_fields:
  "has_prop (map (\<lambda>(k, v). (k, g v)) ob) k = has_prop ob k"
  by (simp add: has_prop_def map_of_map case_prod_beta map_of_eq_None_iff image_image)

lemma wf_obj_map_fields: "wf_obj (map (\<lambda>(k, v). (k, g v)) ob) = wf_obj ob"
  by (simp add: wf_obj_def case_prod_beta comp_def)

lemma proper_obj_map_fields: "proper_obj (map (\<lambda>(k, v). (k, g v)) ob) = proper_obj ob"
  by (simp add: proper_obj_def wf_obj_map_fields has_prop_map_fields)

lemma denormalize_plain_object:
  "\<not> has_prop ob ''__ref'' \<Longrightarrow> proper_obj ob \<Longrightarrow>
     fst (denormalize (JObj ob) ents visited)
       = JObj (map (\<lambda>(k, x). (k, fst (denormalize x ents visited))) ob)"
  by (simp add: denormalizeEntries_map in_obj_ref)

lemma denormalize_stored_ref:
  "map_of ents eid = Some rec \<Longrightarrow> eid \<notin> set visited \<Longrightarrow>
     fst (denormalize (toEntityRef eid) ents visited)
       = fst (denormalize (JObj rec) ents (visited @ [eid]))"
  by (simp add: toEntityRef_def has_prop_def get_prop_def case_prod_beta)

lemma denormalize_normalized_object:
  assumes "proper_obj ob" and "\<not> has_prop ob ''__ref''"
  shows "fst (denormalize (JObj (normEntries tp ob [])) ents visited)
           = JObj (map (\<lambda>(k, v). (k, fst (denormalize (normResult tp v) ents visited))) ob)"
proof -
  have "fst (denormalize (JObj (normEntries tp ob [])) ents visited)
          = JObj (map (\<lambda>(k, x). (k, fst (denormalize x ents visited)))
                    (map (\<lambda>(k, v). (k, normResult tp v)) ob))"
    using assms
    by (simp only: normEntries_map denormalize_plain_object has_prop_map_fields
        proper_obj_map_fields not_False_eq_True)
  then show ?thesis by (simp add: case_prod_beta comp_def)
qed

lemma round_trip_distinct_aux:
  "wf_value v \<Longrightarrow> no_refs v \<Longrightarrow> distinct (map fst (entityWrites tp v)) \<Longrightarrow>
     (\<forall>(i, rec)\<in>set (entityWrites tp v). map_of ents i = Some rec) \<Longrightarrow>
     fst ` set (entityWrites tp v) \<inter> set visited = {} \<Longrightarrow>
     fst (denormalize (normResult tp v) ents visited) = v"
  "every_object_list proper_obj vs \<Longrightarrow> every_object_list (\<lambda>ob. \<not> has_prop ob ''__ref'') vs \<Longrightarrow>
     distinct (map fst (entityWritesArray tp vs)) \<Longrightarrow>
     (\<forall>(i, rec)\<in>set (entityWritesArray tp vs). map_of ents i = Some rec) \<Longrightarrow>
     fst ` set (entityWritesArray tp vs) \<inter> set visited = {} \<Longrightarrow>
     map (\<lambda>v. fst (denormalize (normResult tp v) ents visited)) vs = vs"
  "every_object_fields proper_obj kvs \<Longrightarrow> every_object_fields (\<lambda>ob. \<not> has_prop ob ''__ref'') kvs \<Longrightarrow>
     distinct (map fst (entityWritesFields tp kvs)) \<Longrightarrow>
     (\<forall>(i, rec)\<in>set (entityWritesFields tp kvs). map_of ents i = Some rec) \<Longrightarrow>
     fst ` set (entityWritesFields tp kvs) \<inter> set visited = {} \<Longrightarrow>
     map (\<lambda>(k, v). (k, fst (denormalize (normResult tp v) ents visited))) kvs = kvs"
  unfolding wf_value_def no_refs_def
proof (induction tp v and tp vs and tp kvs arbitrary: visited and visited and visited
    rule: entityWrites_entityWritesArray_entityWritesFields.induct)
  case (1 tp vs)
  then show ?case
    by (simp add: denormalizeArray_map normArray_map comp_def)
next
  case (2 tp ob)
  from "2.prems"(1,2) have wf: "proper_obj ob" and fields_wf: "every_object_fields proper_obj ob"
    and plain: "\<not> has_prop ob ''__ref''"
    and fields_plain: "every_object_fields (\<lambda>ob. \<not> has_prop ob ''__ref'') ob"
    by simp_all
  from "2.prems"(3) have d: "distinct (map fst (entityWritesFields tp ob))" by simp
  from "2.prems"(4) have stored: "\<forall>(i, rec)\<in>set (entityWritesFields tp ob). map_of ents i = Some rec"
    by auto
  note obj = denormalize_normalized_object [OF wf plain]
  show ?case
  proof (cases "getEntityId ob tp")
    case None
    from "2.prems"(5) None have "fst ` set (entityWritesFields tp ob) \<inter> set visited = {}"
      by simp
    from "2.IH" [OF fields_wf fields_plain d stored this] None show ?thesis
      by (simp add: obj del: denormalize.simps)
  next
    case (Some eid)
    then have ne: "eid \<noteq> []" by (rule getEntityId_nonempty)
    from "2.prems"(3,5) Some ne have fresh: "eid \<notin> set visited"
      and disj: "fst ` set (entityWritesFields tp ob) \<inter> set (visited @ [eid]) = {}"
      by auto
    from "2.prems"(4) Some ne have here: "map_of ents eid = Some (normEntries tp ob [])"
      by simp
    from "2.IH" [OF fields_wf fields_plain d stored disj] Some ne show ?thesis
      by (simp add: denormalize_stored_ref [OF here fresh] obj del: denormalize.simps)
  qed
next
  case (9 tp v vs)
  from "9.prems" have
    "fst (denormalize (normResult tp v) ents visited) = v"
    by (intro "9.IH"(1)) (auto simp: Int_Un_distrib2 image_Un)
  moreover from "9.prems" have
    "map (\<lambda>v. fst (denormalize (normResult tp v) ents visited)) vs = vs"
    by (intro "9.IH"(2)) (auto simp: Int_Un_distrib2 image_Un)
  ultimately show ?case by simp
next
  case (11 tp k v rest)
  from "11.prems" have
    "fst (denormalize (normResult tp v) ents visited) = v"
    by (intro "11.IH"(1)) (auto simp: Int_Un_distrib2 image_Un)
  moreover from "11.prems" have
    "map (\<lambda>(k, v). (k, fst (denormalize (normResult tp v) ents visited))) rest = rest"
    by (intro "11.IH"(2)) (auto simp: Int_Un_distrib2 image_Un)
  ultimately show ?case by simp
qed simp_all

lemma round_trip_distinct:
  assumes "wf_value payload" and "no_refs payload" and "distinct (entity_ids tp payload)"
  shows "round_trip payload tp = payload"
proof -
  let ?ws = "entityWrites tp payload"
  from assms(3) have d: "distinct (map fst ?ws)" by (simp add: entity_ids_def)
  then have "\<forall>(i, rec)\<in>set ?ws. map_of (mergeEntities [] ?ws) i = Some rec"
    by (auto simp: map_of_fold_mergeEntity_distinct)
  from round_trip_distinct_aux(1) [OF assms(1,2) d this, of "[]"]
  show ?thesis
    by (simp add: round_trip_def normalize_data_split)
qed

lemma below_append: "below rank (xs @ ys) visited \<longleftrightarrow> below rank xs visited \<and> below rank ys visited"
  by (auto simp: below_def)

lemma below_Nil [simp]: "below rank [] visited" "below rank js []"
  by (simp_all add: below_def)

lemma ranked_lookup:
  "ranked rank ents \<Longrightarrow> map_of ents i = Some rec \<Longrightarrow> j \<in> set (refs (JObj rec)) \<Longrightarrow> rank j < rank i"
  unfolding ranked_def by (auto simp: list_all_iff dest!: map_of_SomeD)

lemma below_descend:
  assumes "ranked rank ents" and "map_of ents i = Some rec" and "below rank [i] visited"
  shows "below rank (refs (JObj rec)) (visited @ [i])"
  unfolding below_def
proof (intro ballI)
  fix j w
  assume j: "j \<in> set (refs (JObj rec))" and w: "w \<in> set (visited @ [i])"
  from ranked_lookup [OF assms(1,2) j] have "rank j < rank i" .
  moreover from assms(3) w have "w = i \<or> rank i < rank w" by (auto simp: below_def)
  ultimately show "rank j < rank w" by auto
qed

lemma ref_in_refs:
  "has_prop ob ''__ref'' \<Longrightarrow> get_prop ob ''__ref'' = JStr i \<Longrightarrow> i \<in> set (refs (JObj ob))"
  by simp

lemma below_not_visited: "below rank [i] visited \<Longrightarrow> i \<notin> set visited"
  by (auto simp: below_def)

lemma denormalize_ref_step:
  "has_prop ob ''__ref'' \<Longrightarrow> get_prop ob ''__ref'' = JStr i \<Longrightarrow> i \<notin> set visited \<Longrightarrow>
     map_of ents i = Some rec \<Longrightarrow>
     fst (denormalize (JObj ob) ents visited) = fst (denormalize (JObj rec) ents (visited @ [i]))"
  by (simp add: case_prod_beta)

lemma denormalize_visited_irrelevant:
  "ranked rank ents \<Longrightarrow> below rank (refs v) visited \<Longrightarrow> below rank (refs v) visited2 \<Longrightarrow>
     fst (denormalize v ents visited) = fst (denormalize v ents visited2)"
  "ranked rank ents \<Longrightarrow> below rank (refsArray rs) visited \<Longrightarrow> below rank (refsArray rs) visited2 \<Longrightarrow>
     fst (denormalizeArray rs ents visited) = fst (denormalizeArray rs ents visited2)"
  "ranked rank ents \<Longrightarrow> below rank (refsFields kvs) visited \<Longrightarrow> below rank (refsFields kvs) visited2 \<Longrightarrow>
     fst (denormalizeEntries kvs acc ents visited) = fst (denormalizeEntries kvs acc ents visited2)"
proof (induction v ents visited and rs ents visited and kvs acc ents visited
    arbitrary: visited2 and visited2 and visited2
    rule: denormalize_denormalizeArray_denormalizeEntries.induct)
  case (3 rs ents visited)
  from "3.IH" [OF "3.prems"(1), of visited2] "3.prems"(2,3) show ?case
    by (simp add: case_prod_beta)
next
  case (4 ob ents visited)
  show ?case
  proof (cases "has_prop ob ''__ref''")
    case False
    from "4.prems" have "below rank (refsFields ob) visited" "below rank (refsFields ob) visited2"
      by (simp_all add: below_append)
    from "4.IH"(2) [OF False "4.prems"(1) this] False show ?thesis
      by (simp add: case_prod_beta)
  next
    case True
    show ?thesis
    proof (cases "get_prop ob ''__ref''")
      case (JStr i)
      from "4.prems"(2,3) JStr have b1: "below rank [i] visited" and b2: "below rank [i] visited2"
        by (simp_all add: below_def)
      then have fresh: "i \<notin> set visited" "i \<notin> set visited2"
        by (simp_all add: below_not_visited)
      show ?thesis
      proof (cases "map_of ents i")
        case None
        with True JStr fresh show ?thesis by simp
      next
        case (Some rec)
        have "fst (denormalize (JObj rec) ents (visited @ [i]))
                = fst (denormalize (JObj rec) ents (visited2 @ [i]))"
          by (rule "4.IH"(1) [OF True JStr fresh(1) Some "4.prems"(1)
                below_descend [OF "4.prems"(1) Some b1] below_descend [OF "4.prems"(1) Some b2]])
        then show ?thesis
          by (simp only: denormalize_ref_step [OF True JStr fresh(1) Some]
              denormalize_ref_step [OF True JStr fresh(2) Some])
      qed
    qed (use True in simp_all)
  qed
next
  case (9 r rs ents visited)
  from "9.prems" have r: "fst (denormalize r ents visited) = fst (denormalize r ents visited2)"
    by (intro "9.IH"(1)) (simp_all add: below_append)
  have "fst (denormalizeArray rs ents (snd (denormalize r ents visited)))
          = fst (denormalizeArray rs ents visited2)"
    using "9.prems"
    by (intro "9.IH"(2) [OF prod.collapse]) (simp_all add: below_append visited_restored_all)
  with r show ?case by (simp add: case_prod_beta visited_restored_all)
next
  case (11 key val rest acc ents visited)
  from "11.prems" have v: "fst (denormalize val ents visited) = fst (denormalize val ents visited2)"
    by (intro "11.IH"(1)) (simp_all add: below_append)
  have "fst (denormalizeEntries rest (assign acc key (fst (denormalize val ents visited)))
              ents (snd (denormalize val ents visited)))
          = fst (denormalizeEntries rest (assign acc key (fst (denormalize val ents visited)))
              ents visited2)"
    using "11.prems"
    by (intro "11.IH"(2) [OF prod.collapse]) (simp_all add: below_append visited_restored_all)
  with v show ?case by (simp add: case_prod_beta visited_restored_all)
qed simp_all

lemma denormalize_no_refs:
  "ranked rank ents \<Longrightarrow> below rank (refs v) visited \<Longrightarrow> no_refs (fst (denormalize v ents visited))"
  "ranked rank ents \<Longrightarrow> below rank (refsArray rs) visited \<Longrightarrow>
     every_object_list (\<lambda>ob. \<not> has_prop ob ''__ref'') (fst (denormalizeArray rs ents visited))"
  "ranked rank ents \<Longrightarrow> below rank (refsFields kvs) visited \<Longrightarrow>
     every_object_fields (\<lambda>ob. \<not> has_prop ob ''__ref'') acc \<Longrightarrow>
     \<not> has_prop acc ''__ref'' \<Longrightarrow> \<not> has_prop kvs ''__ref'' \<Longrightarrow>
     every_object_fields (\<lambda>ob. \<not> has_prop ob ''__ref'') (fst (denormalizeEntries kvs acc ents visited))
     \<and> \<not> has_prop (fst (denormalizeEntries kvs acc ents visited)) ''__ref''"
  unfolding no_refs_def
proof (induction v ents visited and rs ents visited and kvs acc ents visited
    rule: denormalize_denormalizeArray_denormalizeEntries.induct)
  case (3 rs ents visited)
  then show ?case by (simp add: case_prod_beta)
next
  case (4 ob ents visited)
  show ?case
  proof (cases "has_prop ob ''__ref''")
    case False
    from "4.prems" have "below rank (refsFields ob) visited" by (simp add: below_append)
    from "4.IH"(2) [OF False "4.prems"(1) this] False show ?thesis
      by (simp add: case_prod_beta has_prop_def)
  next
    case True
    show ?thesis
    proof (cases "get_prop ob ''__ref''")
      case (JStr i)
      from "4.prems"(2) JStr have b: "below rank [i] visited" by (simp add: below_def)
      then have fresh: "i \<notin> set visited" by (rule below_not_visited)
      show ?thesis
      proof (cases "map_of ents i")
        case None
        with True JStr fresh show ?thesis by simp
      next
        case (Some rec)
        from "4.IH"(1) [OF True JStr fresh Some "4.prems"(1) below_descend [OF "4.prems"(1) Some b]]
        show ?thesis
          by (simp only: denormalize_ref_step [OF True JStr fresh Some])
      qed
    qed (use True in simp_all)
  qed
next
  case (9 r rs ents visited)
  from "9.prems" have "every_object (\<lambda>ob. \<not> has_prop ob ''__ref'') (fst (denormalize r ents visited))"
    by (intro "9.IH"(1)) (simp_all add: below_append)
  moreover have "every_object_list (\<lambda>ob. \<not> has_prop ob ''__ref'')
                   (fst (denormalizeArray rs ents (snd (denormalize r ents visited))))"
    using "9.prems"
    by (intro "9.IH"(2) [OF prod.collapse]) (simp_all add: below_append visited_restored_all)
  ultimately show ?case by (simp add: case_prod_beta)
next
  case (11 key val rest acc ents visited)
  from "11.prems" have v: "every_object (\<lambda>ob. \<not> has_prop ob ''__ref'') (fst (denormalize val ents visited))"
    by (intro "11.IH"(1)) (simp_all add: below_append)
  from "11.prems"(5) have key: "key \<noteq> ''__ref''" and rest: "\<not> has_prop rest ''__ref''"
    by (auto simp: has_prop_Cons)
  have "every_object_fields (\<lambda>ob. \<not> has_prop ob ''__ref'')
          (fst (denormalizeEntries rest (assign acc key (fst (denormalize val ents visited)))
             ents (snd (denormalize val ents visited))))
        \<and> \<not> has_prop (fst (denormalizeEntries rest
               (assign acc key (fst (denormalize val ents visited)))
               ents (snd (denormalize val ents visited)))) ''__ref''"
    using "11.prems"(1-4) v key rest
    by (intro "11.IH"(2) [OF prod.collapse])
      (simp_all add: below_append visited_restored_all every_fields_assign has_prop_assign)
  then show ?case by (simp add: case_prod_beta)
qed simp_all

lemma refs_of_field: "(k, x) \<in> set rec \<Longrightarrow> set (refs x) \<subseteq> set (refsFields rec)"
  by (induction rec) auto

lemma denormalize_record:
  assumes "ranked rank ents" and "map_of ents eid = Some rec"
    and "proper_obj rec" and "\<not> has_prop rec ''__ref''"
  shows "fst (denormalize (toEntityRef eid) ents [])
           = JObj (map (\<lambda>(k, v). (k, fst (denormalize v ents []))) rec)"
proof -
  have "fst (denormalize x ents [eid]) = fst (denormalize x ents [])" if "(k, x) \<in> set rec" for k x
  proof (rule denormalize_visited_irrelevant(1) [OF assms(1)])
    from refs_of_field [OF that] have "set (refs x) \<subseteq> set (refs (JObj rec))" by auto
    with ranked_lookup [OF assms(1,2)] show "below rank (refs x) [eid]"
      by (auto simp: below_def)
    show "below rank (refs x) []" by simp
  qed
  then have "map (\<lambda>(k, x). (k, fst (denormalize x ents [eid]))) rec
           = map (\<lambda>(k, x). (k, fst (denormalize x ents []))) rec"
    by (intro map_cong) auto
  with denormalize_stored_ref [OF assms(2), of "[]"] denormalize_plain_object [OF assms(4,3), of ents "[eid]"]
  show ?thesis by simp
qed

lemma stored_plain_append:
  "stored_plain ents (xs @ ys) \<longleftrightarrow> stored_plain ents xs \<and> stored_plain ents ys"
  by (auto simp: stored_plain_def)

lemma round_trip_ranked_aux:
  "wf_value v \<Longrightarrow> no_refs v \<Longrightarrow> ranked rank ents \<Longrightarrow> stored_plain ents (entityWrites tp v) \<Longrightarrow>
     fst (denormalize (normResult tp v) ents []) = with_stored_entities tp ents v"
  "every_object_list proper_obj vs \<Longrightarrow> every_object_list (\<lambda>ob. \<not> has_prop ob ''__ref'') vs \<Longrightarrow>
     ranked rank ents \<Longrightarrow> stored_plain ents (entityWritesArray tp vs) \<Longrightarrow>
     map (\<lambda>v. fst (denormalize (normResult tp v) ents [])) vs = with_stored_entities_array tp ents vs"
  "every_object_fields proper_obj kvs \<Longrightarrow> every_object_fields (\<lambda>ob. \<not> has_prop ob ''__ref'') kvs \<Longrightarrow>
     ranked rank ents \<Longrightarrow> stored_plain ents (entityWritesFields tp kvs) \<Longrightarrow>
     map (\<lambda>(k, v). (k, fst (denormalize (normResult tp v) ents []))) kvs
       = with_stored_entities_fields tp ents kvs"
  unfolding wf_value_def no_refs_def
proof (induction tp v and tp vs and tp kvs
    rule: entityWrites_entityWritesArray_entityWritesFields.induct)
  case (1 tp vs)
  then show ?case
    by (simp add: denormalizeArray_map normArray_map comp_def)
next
  case (2 tp ob)
  from "2.prems"(1,2) have wf: "proper_obj ob" and fields_wf: "every_object_fields proper_obj ob"
    and plain: "\<not> has_prop ob ''__ref''"
    and fields_plain: "every_object_fields (\<lambda>ob. \<not> has_prop ob ''__ref'') ob"
    by simp_all
  show ?case
  proof (cases "getEntityId ob tp")
    case None
    from "2.prems"(4) have "stored_plain ents (entityWritesFields tp ob)"
      by (simp add: stored_plain_append)
    from "2.IH" [OF fields_wf fields_plain "2.prems"(3) this] None show ?thesis
      by (simp add: denormalize_normalized_object [OF wf plain] del: denormalize.simps)
  next
    case (Some eid)
    then have ne: "eid \<noteq> []" by (rule getEntityId_nonempty)
    from "2.prems"(4) Some ne obtain rec where rec: "map_of ents eid = Some rec"
      "proper_obj rec" "\<not> has_prop rec ''__ref''"
      by (auto simp: stored_plain_def)
    from denormalize_record [OF "2.prems"(3) rec] Some ne rec(1) show ?thesis
      by (simp del: denormalize.simps)
  qed
next
  case (9 tp v vs)
  then show ?case by (simp add: stored_plain_append)
next
  case (11 tp k v rest)
  then show ?case by (simp add: stored_plain_append)
qed simp_all

lemma plain_map_update:
  "plain_map ents \<Longrightarrow> \<not> has_prop rec ''__ref'' \<Longrightarrow> plain_map (AList.update i rec ents)"
  unfolding plain_map_def by (induction ents) auto

lemma plain_map_lookup: "plain_map ents \<Longrightarrow> map_of ents i = Some rec \<Longrightarrow> \<not> has_prop rec ''__ref''"
  unfolding plain_map_def by (auto simp: list_all_iff dest!: map_of_SomeD)

lemma plain_map_mergeEntity:
  "plain_map ents \<Longrightarrow> \<not> has_prop rec ''__ref'' \<Longrightarrow> plain_map (mergeEntity (i, rec) ents)"
  by (auto simp: mergeEntity_def has_prop_spread split: option.splits
      intro!: plain_map_update dest: plain_map_lookup)

lemma plain_map_fold:
  "plain_map ents \<Longrightarrow> plain_map ws \<Longrightarrow> plain_map (fold mergeEntity ws ents)"
proof (induction ws arbitrary: ents)
  case Nil
  then show ?case by simp
next
  case (Cons p ws)
  obtain i rec where p: "p = (i, rec)" by (cases p)
  from Cons.prems(2) p have "\<not> has_prop rec ''__ref''" and rest: "plain_map ws"
    by (simp_all add: plain_map_def)
  with Cons.prems(1) have "plain_map (mergeEntity (i, rec) ents)"
    by (intro plain_map_mergeEntity)
  from Cons.IH [OF this rest] show ?case by (simp add: p)
qed

lemma writes_plain:
  "wf_value v \<Longrightarrow> no_refs v \<Longrightarrow> plain_map (entityWrites tp v)"
  "every_object_list proper_obj vs \<Longrightarrow> every_object_list (\<lambda>ob. \<not> has_prop ob ''__ref'') vs \<Longrightarrow>
     plain_map (entityWritesArray tp vs)"
  "every_object_fields proper_obj kvs \<Longrightarrow> every_object_fields (\<lambda>ob. \<not> has_prop ob ''__ref'') kvs \<Longrightarrow>
     plain_map (entityWritesFields tp kvs)"
  unfolding wf_value_def no_refs_def plain_map_def
  by (induction tp v and tp vs and tp kvs
      rule: entityWrites_entityWritesArray_entityWritesFields.induct)
    (auto simp: has_prop_norm split: option.splits)

lemma stored_fold_mergeEntity:
  "i \<in> fst ` set ws \<Longrightarrow> map_of (fold mergeEntity ws ents) i \<noteq> None"
proof (induction ws arbitrary: ents rule: rev_induct)
  case Nil
  then show ?case by simp
next
  case (snoc p ws)
  obtain i' rec where p: "p = (i', rec)" by (cases p)
  show ?case
  proof (cases "i = i'")
    case True
    then show ?thesis by (simp add: p map_of_mergeEntity)
  next
    case False
    with snoc.prems p have "i \<in> fst ` set ws" by auto
    from snoc.IH [OF this, of ents] False show ?thesis
      by (simp add: p map_of_mergeEntity)
  qed
qed

lemma stored_plain_normalize:
  assumes "wf_value payload" and "no_refs payload"
  shows "stored_plain (snd (normalize_data payload tp)) (entityWrites tp payload)"
  unfolding stored_plain_def
proof (intro ballI, clarify)
  fix i r
  let ?ents = "snd (normalize_data payload tp)"
  assume "(i, r) \<in> set (entityWrites tp payload)"
  then have "i \<in> fst ` set (entityWrites tp payload)" by force
  then have "map_of (fold mergeEntity (entityWrites tp payload) []) i \<noteq> None"
    by (rule stored_fold_mergeEntity)
  then obtain rec where rec: "map_of ?ents i = Some rec"
    by (auto simp: normalize_data_split mergeEntities_def)
  have "proper_obj rec" using proper_normalize rec by (rule proper_map_lookup)
  moreover have "plain_map []" by (simp add: plain_map_def)
  then have "plain_map (fold mergeEntity (entityWrites tp payload) [])"
    using writes_plain(1) [OF assms, of tp] by (rule plain_map_fold)
  then have "plain_map ?ents"
    by (simp add: normalize_data_split mergeEntities_def)
  then have "\<not> has_prop rec ''__ref''" using rec by (rule plain_map_lookup)
  ultimately show "\<exists>rec. map_of ?ents i = Some rec \<and> proper_obj rec \<and> \<not> has_prop rec ''__ref''"
    using rec by blast
qed

lemma round_trip_acyclic:
  assumes "wf_value payload" and "no_refs payload"
    and "ranked rank (snd (normalize_data payload tp))"
  shows "round_trip payload tp = with_stored_entities tp (snd (normalize_data payload tp)) payload"
    and "no_refs (round_trip payload tp)"
proof -
  let ?ents = "snd (normalize_data payload tp)"
  note rank = assms(3)
  have rt: "round_trip payload tp = fst (denormalize (normResult tp payload) ?ents [])"
    by (simp add: round_trip_def normalize_data_split)
  from round_trip_ranked_aux(1) [OF assms(1,2) rank stored_plain_normalize [OF assms(1,2)]]
  show "round_trip payload tp = with_stored_entities tp ?ents payload"
    by (simp only: rt)
  from denormalize_no_refs(1) [OF rank, of "normResult tp payload" "[]"]
  show "no_refs (round_trip payload tp)"
    by (simp add: rt)
qed

lemma map_of_fold_mergeEntity:
  "map_of (fold mergeEntity ws ents) eid =
     (case map_of ents eid of
        Some old \<Rightarrow> Some (fold (\<lambda>r acc. spread acc r) (map snd (filter (\<lambda>(i, r). i = eid) ws)) old)
      | None \<Rightarrow>
          (case map snd (filter (\<lambda>(i, r). i = eid) ws) of
             [] \<Rightarrow> None
           | r # rest \<Rightarrow> Some (fold (\<lambda>r acc. spread acc r) rest r)))"
proof (induction ws arbitrary: ents)
  case Nil
  then show ?case by (simp split: option.splits)
next
  case (Cons p ws)
  obtain i r where p: "p = (i, r)" by (cases p)
  show ?case
    by (simp add: p Cons.IH map_of_mergeEntity split: option.splits)
qed

lemma stored_is_merged_record:
  "map_of (snd (normalize_data payload tp)) eid = merged_record tp payload eid"
  by (simp add: normalize_data_split mergeEntities_def map_of_fold_mergeEntity merged_record_def
      occurrences_def)

lemma normalize_posts:
  "normalize_data posts_payload (\<lambda>t. None) =
     (JArr [JObj [(''__ref'', JStr ''Post:1'')], JObj [(''__ref'', JStr ''Post:2'')]], posts_entities)"
  by (simp add: posts_payload_def posts_entities_def cache_eval)

lemma posts_ranked: "ranked (\<lambda>i. if i = ''User:1'' then 0 else 1) posts_entities"
  by (simp add: ranked_def posts_entities_def get_prop_def)

lemma posts_with_stored_entities:
  "with_stored_entities (\<lambda>t. None) posts_entities posts_payload =
     JArr [JObj [(''__typename'', JStr ''Post''), (''id'', JStr ''1''),
                 (''author'', JObj [(''__typename'', JStr ''User''), (''id'', JStr ''1''),
                                    (''name'', JStr ''B''), (''email'', JStr ''e'')])],
           JObj [(''__typename'', JStr ''Post''), (''id'', JStr ''2''),
                 (''author'', JObj [(''__typename'', JStr ''User''), (''id'', JStr ''1''),
                                    (''name'', JStr ''B''), (''email'', JStr ''e'')])]]"
  by (simp add: posts_payload_def posts_entities_def getEntityId_def policy_keyFields_def
      get_prop_def has_prop_def default_id_def in_obj_def object_prototype_names_def assign_def)

lemma posts_occurrences:
  "occurrences (\<lambda>t. None) posts_payload ''User:1'' =
     [[(''__typename'', JStr ''User''), (''id'', JStr ''1''), (''name'', JStr ''A'')],
      [(''__typename'', JStr ''User''), (''id'', JStr ''1''), (''name'', JStr ''B''),
       (''email'', JStr ''e'')]]"
  by (simp add: occurrences_def posts_payload_def cache_eval)

lemma order_payload_wf: "wf_value order_payload"
  by (simp add: wf_value_def order_payload_def proper_obj_def wf_obj_def has_prop_def)




end
